theory Spec2Isabelle
  imports Main
begin

section \<open>Python string primitives used by scripts/generate_docs.py\<close>

text \<open>
  A Python \<open>str\<close> is modelled as a \<open>string\<close> (a list of 8-bit characters), read as ASCII
  source text. The character classes below are Python's on the ASCII range:
  \<open>str.isspace\<close> (used by \<open>str.strip()\<close>) and the regular expression class \<open>\s\<close> both
  hold for the codes 9-13, 28-31 and 32; \<open>\w\<close> is \<open>[a-zA-Z0-9_]\<close>.
\<close>

abbreviation NL :: char where "NL \<equiv> CHR 0x0A"

definition isspace :: "char \<Rightarrow> bool" where
  "isspace c = (c \<in> set [CHR 0x09, CHR 0x0A, CHR 0x0B, CHR 0x0C, CHR 0x0D,
                            CHR 0x1C, CHR 0x1D, CHR 0x1E, CHR 0x1F, CHR 0x20])"

definition isword :: "char \<Rightarrow> bool" where
  "isword c = (c \<in> set ''abcdefghijklmnopqrstuvwxyzABCDEFGHIJKLMNOPQRSTUVWXYZ0123456789_'')"

text \<open>\<open>s.strip()\<close>, \<open>s.lstrip(chars)\<close> (a character set, not a prefix), \<open>s.startswith(p)\<close>,
  \<open>sub in s\<close>.\<close>

definition strip :: "string \<Rightarrow> string" where
  "strip s = rev (dropWhile isspace (rev (dropWhile isspace s)))"

definition lstrip_chars :: "string \<Rightarrow> string \<Rightarrow> string" where
  "lstrip_chars chars s = dropWhile (\<lambda>c. c \<in> set chars) s"

definition startswith :: "string \<Rightarrow> string \<Rightarrow> bool" where
  "startswith s p = (take (length p) s = p)"

fun contains :: "string \<Rightarrow> string \<Rightarrow> bool" where
  "contains sub [] = (sub = [])"
| "contains sub (c # cs) = (startswith (c # cs) sub \<or> contains sub cs)"

text \<open>\<open>s.split("\n")\<close> and \<open>"\n".join(xs)\<close>.\<close>

fun split_on :: "char \<Rightarrow> string \<Rightarrow> string list" where
  "split_on sep [] = [[]]"
| "split_on sep (c # cs) =
     (if c = sep then [] # split_on sep cs
      else (case split_on sep cs of [] \<Rightarrow> [[c]] | x # xs \<Rightarrow> (c # x) # xs))"

fun join :: "string \<Rightarrow> string list \<Rightarrow> string" where
  "join sep [] = []"
| "join sep [x] = x"
| "join sep (x # y # ys) = x @ sep @ join sep (y # ys)"

text \<open>\<open>s.replace(old, new)\<close>: the non-overlapping occurrences of \<open>old\<close>, left to right.
  For an empty \<open>old\<close> Python puts \<open>new\<close> before every character and at the end.\<close>

function replace_ne :: "string \<Rightarrow> string \<Rightarrow> string \<Rightarrow> string" where
  "replace_ne old new s =
     (if s = [] \<or> old = [] then s
      else if startswith s old then new @ replace_ne old new (drop (length old) s)
      else hd s # replace_ne old new (tl s))"
  by pat_completeness auto
termination
  by (relation "measure (\<lambda>(old, new, s). length s)") auto

declare replace_ne.simps [simp del]

definition replace :: "string \<Rightarrow> string \<Rightarrow> string \<Rightarrow> string" where
  "replace old new s =
     (if old = [] then new @ concat (map (\<lambda>c. c # new) s) else replace_ne old new s)"

text \<open>\<open>s.lower()\<close> on ASCII.\<close>

definition lower_char :: "char \<Rightarrow> char" where
  "lower_char c =
     (case map_of (zip ''ABCDEFGHIJKLMNOPQRSTUVWXYZ'' ''abcdefghijklmnopqrstuvwxyz'') c of
        Some l \<Rightarrow> l
      | None \<Rightarrow> c)"

definition lower :: "string \<Rightarrow> string" where
  "lower s = map lower_char s"

section \<open>The normalizer\<close>

subsection \<open>Stage A: \<open>clean_rustdoc\<close>\<close>

text \<open>One iteration of the loop of \<open>clean_rustdoc\<close>: the string appended for \<open>line\<close>.\<close>

definition clean_line :: "string \<Rightarrow> string" where
  "clean_line line =
     (if startswith (strip line) ''//!'' then strip (lstrip_chars ''//! '' line)
      else if startswith (strip line) ''///'' then strip (lstrip_chars ''/// '' line)
      else strip line)"

definition clean_rustdoc :: "string \<Rightarrow> string" where
  "clean_rustdoc doc_string =
     (if doc_string = [] then []
      else join [NL] (filter (\<lambda>line. line \<noteq> []) (map clean_line (split_on NL doc_string))))"

subsection \<open>Stage B: \<open>format_rustdoc_to_markdown\<close>\<close>

text \<open>What the loop appends on a fence line: the stripped line with both tags rewritten
  when it carries one of them, the line itself otherwise.\<close>

definition fence_line :: "string \<Rightarrow> string" where
  "fence_line line =
     (let stripped = strip line in
      if contains ''rust,no_run'' stripped \<or> contains ''rust,ignore'' stripped
      then replace ''rust,ignore'' ''rust'' (replace ''rust,no_run'' ''rust'' stripped)
      else line)"

text \<open>What the loop appends on a line that is neither a fence nor blank, by the
  \<open>if\<close>/\<open>elif\<close> chain of the source.\<close>

definition shape_line :: "bool \<Rightarrow> string \<Rightarrow> string" where
  "shape_line code_block line =
     (let stripped = strip line in
      if startswith stripped ''#'' \<and> \<not> code_block then
        (let level = length stripped - length (lstrip_chars ''#'' stripped)
         in replicate (level + 1) CHR ''#'' @ '' '' @ strip (lstrip_chars ''#'' stripped))
      else if startswith stripped ''-'' \<and> \<not> code_block then line
      else if startswith stripped ''*'' \<and> \<not> code_block then ''-'' @ drop 1 stripped
      else if startswith stripped ''['' \<and> contains '']'' stripped \<and> contains ''('' stripped
        then line
      else if \<not> code_block then line
      else line)"

text \<open>The loop over the lines, with the flag \<open>code_block\<close> as its state.\<close>

fun format_lines :: "bool \<Rightarrow> string list \<Rightarrow> string list" where
  "format_lines code_block [] = []"
| "format_lines code_block (line # rest) =
     (if startswith (strip line) ''```''
      then fence_line line # format_lines (\<not> code_block) rest
      else if strip line = [] then [] # format_lines code_block rest
      else shape_line code_block line # format_lines code_block rest)"

definition format_rustdoc_to_markdown :: "string \<Rightarrow> string" where
  "format_rustdoc_to_markdown doc_text =
     (if doc_text = [] then []
      else join [NL] (format_lines False (split_on NL doc_text)))"

section \<open>The renderer\<close>

record field =
  field_name :: string
  field_type :: string

record struct =
  struct_name :: string
  struct_docs :: string
  struct_fields :: "field list"

record callable =
  fn_name :: string
  fn_docs :: string
  fn_params :: string
  fn_return :: string

record rustdata =
  module_doc :: string
  structs :: "struct list"
  impls :: "callable list"
  "functions" :: "callable list"

definition render_header :: "string \<Rightarrow> string \<Rightarrow> string" where
  "render_header name formatted_doc =
     ''---\<newline>title: '' @ name @
     ''\<newline>description: Auto-generated documentation from rustdoc\<newline>---\<newline>\<newline># '' @ name @
     ''\<newline>\<newline>'' @ formatted_doc @ ''\<newline>\<newline>''"

definition render_field :: "field \<Rightarrow> string" where
  "render_field f = ''| `'' @ field_name f @ ''` | `'' @ field_type f @ ''` | |\<newline>''"

definition render_struct :: "struct \<Rightarrow> string" where
  "render_struct s =
     ''## Struct: '' @ struct_name s @ ''\<newline>\<newline>'' @ struct_docs s @
     ''\<newline>\<newline>### Fields\<newline>\<newline>| Field | Type | Description |\<newline>|-------|------|-------------|\<newline>'' @
     concat (map render_field (struct_fields s)) @ ''\<newline>''"

text \<open>The block written for one callable; the three loops of the source write the same
  block, each only when \<open>docs\<close> is non-empty.\<close>

definition render_callable :: "callable \<Rightarrow> string" where
  "render_callable f =
     ''### `'' @ fn_name f @ ''`\<newline>\<newline>'' @ fn_docs f @
     ''\<newline>\<newline>**Signature:**\<newline>```rust\<newline>fn '' @ fn_name f @ ''('' @ fn_params f @ '') '' @
     fn_return f @ ''\<newline>```\<newline>\<newline>''"

definition render_documented :: "callable list \<Rightarrow> string" where
  "render_documented fs =
     concat (map (\<lambda>f. if fn_docs f \<noteq> [] then render_callable f else []) fs)"

definition is_constructor :: "callable \<Rightarrow> bool" where
  "is_constructor f =
     list_ex (\<lambda>c. contains c (lower (fn_name f))) [''new'', ''create'', ''from'']"

definition constructors :: "rustdata \<Rightarrow> callable list" where
  "constructors data = filter is_constructor (functions data)"

text \<open>\<open>f not in constructors\<close> is list membership by value equality.\<close>

definition other_funcs :: "rustdata \<Rightarrow> callable list" where
  "other_funcs data = filter (\<lambda>f. f \<notin> set (constructors data)) (functions data)"

definition constructors_section :: "rustdata \<Rightarrow> string" where
  "constructors_section data =
     (if constructors data \<noteq> []
      then ''## Constructors\<newline>\<newline>'' @ render_documented (constructors data) else [])"

definition functions_section :: "rustdata \<Rightarrow> string" where
  "functions_section data =
     (if other_funcs data \<noteq> []
      then ''## Functions\<newline>\<newline>'' @ render_documented (other_funcs data) else [])"

definition methods_section :: "rustdata \<Rightarrow> string" where
  "methods_section data =
     (if impls data \<noteq> []
      then ''## Methods\<newline>\<newline>'' @ render_documented (impls data) else [])"

definition generate_mdx_from_rustdata :: "string \<Rightarrow> rustdata \<Rightarrow> string \<Rightarrow> string" where
  "generate_mdx_from_rustdata name data category =
     render_header name (format_rustdoc_to_markdown (module_doc data)) @
     concat (map render_struct (structs data)) @
     constructors_section data @ functions_section data @ methods_section data"

section \<open>Regular expressions: the fragment of Python's \<open>re\<close> the extractor uses\<close>

text \<open>
  The patterns of the program are values of \<open>regex\<close>; \<open>(?:...)\<close> is plain nesting and
  \<open>(?P<name>...)\<close> or a numbered group is \<open>Group\<close>. All quantifiers of the program are
  greedy.
\<close>

datatype regex =
    Lit string
  | Dot
  | Space
  | Word
  | NoneOf string
  | Seq regex regex
  | Star regex
  | Plus regex
  | Opt regex
  | Group string regex

text \<open>
  A matcher state is the text still to be read and the groups captured so far (the latest
  capture of a name first). \<open>matches r st\<close> lists every way \<open>r\<close> can match at \<open>st\<close>, in the
  order in which a backtracking matcher tries them: greedy repetition tries one more
  iteration before it tries to stop. The match Python reports is the head of the list. An
  iteration that reads nothing ends the repetition (no repeated expression of this program
  can match the empty text).
\<close>

type_synonym captures = "(string \<times> string) list"
type_synonym mstate = "string \<times> captures"

fun match_char :: "(char \<Rightarrow> bool) \<Rightarrow> mstate \<Rightarrow> mstate list" where
  "match_char P ([], g) = []"
| "match_char P (c # cs, g) = (if P c then [(cs, g)] else [])"

fun star_iter :: "(mstate \<Rightarrow> mstate list) \<Rightarrow> nat \<Rightarrow> mstate \<Rightarrow> mstate list" where
  "star_iter f 0 st = [st]"
| "star_iter f (Suc n) st =
     concat (map (star_iter f n)
       (filter (\<lambda>st'. length (fst st') < length (fst st)) (f st))) @ [st]"

definition capture :: "string \<Rightarrow> mstate \<Rightarrow> mstate \<Rightarrow> mstate" where
  "capture name st st' =
     (fst st', (name, take (length (fst st) - length (fst st')) (fst st)) # snd st')"

primrec matches :: "regex \<Rightarrow> mstate \<Rightarrow> mstate list" where
  "matches (Lit s) = (\<lambda>st. if startswith (fst st) s then [(drop (length s) (fst st), snd st)] else [])"
| "matches Dot = match_char (\<lambda>c. c \<noteq> NL)"
| "matches Space = match_char isspace"
| "matches Word = match_char isword"
| "matches (NoneOf cs) = match_char (\<lambda>c. c \<notin> set cs)"
| "matches (Seq r1 r2) = (\<lambda>st. concat (map (matches r2) (matches r1 st)))"
| "matches (Star r) = (\<lambda>st. star_iter (matches r) (length (fst st)) st)"
| "matches (Plus r) =
     (\<lambda>st. concat (map (\<lambda>st'. star_iter (matches r) (length (fst st')) st') (matches r st)))"
| "matches (Opt r) = (\<lambda>st. matches r st @ [st])"
| "matches (Group name r) = (\<lambda>st. map (capture name st) (matches r st))"

fun cat :: "regex list \<Rightarrow> regex" where
  "cat [] = Lit []"
| "cat [r] = r"
| "cat (r # rs) = Seq r (cat rs)"

text \<open>\<open>m.group(name)\<close>: \<open>None\<close> for a group that took no part in the match.\<close>

definition group :: "captures \<Rightarrow> string \<Rightarrow> string option" where
  "group m name = map_of m name"

text \<open>\<open>re.match(r, s)\<close>: the first match at the start of \<open>s\<close>.\<close>

definition re_match :: "regex \<Rightarrow> string \<Rightarrow> captures option" where
  "re_match r s = (case matches r (s, []) of [] \<Rightarrow> None | st # _ \<Rightarrow> Some (snd st))"

text \<open>
  \<open>re.finditer(r, s)\<close>: the leftmost match, then the scan goes on where it ended; where
  nothing matches the scan moves on by one character, as it does after a match that read
  nothing.
\<close>

function finditer :: "regex \<Rightarrow> string \<Rightarrow> captures list" where
  "finditer r [] = (case matches r ([], []) of [] \<Rightarrow> [] | st # _ \<Rightarrow> [snd st])"
| "finditer r (c # cs) =
     (case matches r (c # cs, []) of
        [] \<Rightarrow> finditer r cs
      | st # _ \<Rightarrow>
          snd st # (if length (fst st) < length (c # cs) then finditer r (fst st)
                    else finditer r cs))"
  by pat_completeness auto
termination
  by (relation "measure (\<lambda>(r, s). length s)") auto

text \<open>
  A pattern that starts with \<open>^\<close> under \<open>re.MULTILINE\<close> can match only at the start of
  the text and right after a newline: \<open>finditer_bol r s\<close> is \<open>re.finditer\<close> for \<open>^r\<close>, the
  flag \<open>bol\<close> telling whether the scan stands at the start of a line.
\<close>

function finditer_bol :: "regex \<Rightarrow> bool \<Rightarrow> string \<Rightarrow> captures list" where
  "finditer_bol r bol [] =
     (if bol then (case matches r ([], []) of [] \<Rightarrow> [] | st # _ \<Rightarrow> [snd st]) else [])"
| "finditer_bol r bol (c # cs) =
     (if bol then
        (case matches r (c # cs, []) of
           [] \<Rightarrow> finditer_bol r (c = NL) cs
         | st # _ \<Rightarrow>
             snd st # (if length (fst st) < length (c # cs)
                       then finditer_bol r
                              ((c # cs) ! (length (c # cs) - length (fst st) - 1) = NL) (fst st)
                       else finditer_bol r (c = NL) cs))
      else finditer_bol r (c = NL) cs)"
  by pat_completeness auto
termination
  by (relation "measure (\<lambda>(r, bol, s). length s)") auto

section \<open>The extractor\<close>

text \<open>
  Exceptions are values: \<open>Inl e\<close> is the exception Python would raise. The only operations
  of \<open>extract_from_file\<close> that can raise on a text are the string methods called on the
  result of \<open>m.group(...)\<close>, which is \<open>None\<close> for a group that took no part in the match
  (\<open>AttributeError\<close>). A group name stored without a method call (\<open>name\<close>) is required
  to be a string in the same way, which is stricter than Python.
\<close>

datatype py_error = AttributeError

text \<open>A loop that appends to a list and is left by the first exception.\<close>

fun collect :: "('a \<Rightarrow> py_error + 'b list) \<Rightarrow> 'a list \<Rightarrow> py_error + 'b list" where
  "collect f [] = Inr []"
| "collect f (x # xs) =
     (case f x of
        Inl e \<Rightarrow> Inl e
      | Inr ys \<Rightarrow> (case collect f xs of Inl e \<Rightarrow> Inl e | Inr zs \<Rightarrow> Inr (ys @ zs)))"

text \<open>\<open>clean_rustdoc(m.group("docs"))\<close>: \<open>not None\<close> holds, so \<open>None\<close> gives the empty string.\<close>

definition clean_rustdoc_group :: "string option \<Rightarrow> string" where
  "clean_rustdoc_group d = (case d of None \<Rightarrow> [] | Some doc_string \<Rightarrow> clean_rustdoc doc_string)"

text \<open>\<open>(?:///[^\n]*\n\s*)\<close>, the documentation line all declaration patterns repeat.\<close>

definition doc_line :: regex where
  "doc_line = cat [Lit ''///'', Star (NoneOf [NL]), Lit [NL], Star Space]"

text \<open>\<open>^(//!.*(?:\n//!.*)*)\<close>; the \<open>^\<close> is the scan \<open>finditer_bol\<close>.\<close>

definition module_doc_pattern :: regex where
  "module_doc_pattern =
     Group ''1'' (cat [Lit ''//!'', Star Dot, Star (cat [Lit (NL # ''//!''), Star Dot])])"

text \<open>\<open>(?P<docs>(?:///[^\n]*\n\s*)+)\s*pub struct (?P<name>\w+)\s*\{(?P<body>[^}]*)\}\<close>\<close>

definition struct_pattern :: regex where
  "struct_pattern =
     cat [Group ''docs'' (Plus doc_line), Star Space, Lit ''pub struct '',
          Group ''name'' (Plus Word), Star Space, Lit ''{'',
          Group ''body'' (Star (NoneOf ''}'')), Lit ''}'']"

text \<open>\<open>(\w+)\s*:\s*([^,]+)\<close>\<close>

definition field_pattern :: regex where
  "field_pattern =
     cat [Group ''1'' (Plus Word), Star Space, Lit '':'', Star Space,
          Group ''2'' (Plus (NoneOf '','')) ]"

text \<open>\<open>(?P<docs>(?:///[^\n]*\n\s*)*)impl\s+\w+\s*\{(?P<body>[^}]*)\}\<close>\<close>

definition impl_pattern :: regex where
  "impl_pattern =
     cat [Group ''docs'' (Star doc_line), Lit ''impl'', Plus Space, Plus Word, Star Space,
          Lit ''{'', Group ''body'' (Star (NoneOf ''}'')), Lit ''}'']"

text \<open>\<open>(?P<docs>(?:///[^\n]*\n\s*)*)pub\s+(?:async\s+)?fn\s+(?P<name>\w+)\s*\((?P<params>[^)]*)\)\s*(?P<return>->\s*[^{;]*)?\<close>,
  the text of both \<open>method_pattern\<close> and \<open>func_pattern\<close>.\<close>

definition func_pattern :: regex where
  "func_pattern =
     cat [Group ''docs'' (Star doc_line), Lit ''pub'', Plus Space,
          Opt (cat [Lit ''async'', Plus Space]), Lit ''fn'', Plus Space,
          Group ''name'' (Plus Word), Star Space, Lit ''('',
          Group ''params'' (Star (NoneOf '')'')), Lit '')'', Star Space,
          Opt (Group ''return'' (cat [Lit ''->'', Star Space, Star (NoneOf ''{;'')]))]"

definition method_pattern :: regex where
  "method_pattern = func_pattern"

text \<open>One iteration of the loop over the lines of a struct body: the fields it appends.\<close>

definition parse_field_line :: "string \<Rightarrow> py_error + field list" where
  "parse_field_line raw =
     (let line = strip raw in
      if line \<noteq> [] \<and> \<not> startswith line ''//'' then
        (case re_match field_pattern line of
           None \<Rightarrow> Inr []
         | Some field_match \<Rightarrow>
             (case (group field_match ''1'', group field_match ''2'') of
                (Some name, Some type) \<Rightarrow> Inr [\<lparr>field_name = name, field_type = strip type\<rparr>]
              | _ \<Rightarrow> Inl AttributeError))
      else Inr [])"

text \<open>The body of the loop over the struct matches.\<close>

definition struct_of_match :: "captures \<Rightarrow> py_error + struct list" where
  "struct_of_match m =
     (let docs = clean_rustdoc_group (group m ''docs'') in
      case (group m ''name'', group m ''body'') of
        (Some name, Some body) \<Rightarrow>
          (case collect parse_field_line (split_on NL body) of
             Inl e \<Rightarrow> Inl e
           | Inr field_list \<Rightarrow>
               Inr [\<lparr>struct_name = name, struct_docs = docs, struct_fields = field_list\<rparr>])
      | _ \<Rightarrow> Inl AttributeError)"

text \<open>The body of the loops over the method and the function matches;
  \<open>m.group("return") or "-> ()"\<close> replaces both \<open>None\<close> and the empty string.\<close>

definition callable_of_match :: "captures \<Rightarrow> py_error + callable list" where
  "callable_of_match m =
     (let docs = clean_rustdoc_group (group m ''docs'');
          return_type = (case group m ''return'' of
                           None \<Rightarrow> ''-> ()''
                         | Some r \<Rightarrow> if r = [] then ''-> ()'' else r) in
      case (group m ''name'', group m ''params'') of
        (Some name, Some params) \<Rightarrow>
          Inr [\<lparr>fn_name = name, fn_docs = docs, fn_params = strip params,
                fn_return = strip return_type\<rparr>]
      | _ \<Rightarrow> Inl AttributeError)"

text \<open>The body of the loop over the impl matches.\<close>

definition methods_of_impl :: "captures \<Rightarrow> py_error + callable list" where
  "methods_of_impl m =
     (case group m ''body'' of
        None \<Rightarrow> Inl AttributeError
      | Some body \<Rightarrow> collect callable_of_match (finditer method_pattern body))"

text \<open>\<open>re.findall\<close> with one group gives that group's text, empty when it took no part.\<close>

definition module_matches :: "string \<Rightarrow> string list" where
  "module_matches content =
     map (\<lambda>m. case group m ''1'' of None \<Rightarrow> [] | Some t \<Rightarrow> t)
       (finditer_bol module_doc_pattern True content)"

text \<open>\<open>extract_from_file\<close>, on the text read from the file.\<close>

definition extract_from_file :: "string \<Rightarrow> py_error + rustdata" where
  "extract_from_file content =
     (let doc = (if module_matches content \<noteq> []
                 then clean_rustdoc (join [NL] (module_matches content)) else []) in
      case collect struct_of_match (finditer struct_pattern content) of
        Inl e \<Rightarrow> Inl e
      | Inr ss \<Rightarrow>
          (case collect methods_of_impl (finditer impl_pattern content) of
             Inl e \<Rightarrow> Inl e
           | Inr ms \<Rightarrow>
               (case collect callable_of_match (finditer func_pattern content) of
                  Inl e \<Rightarrow> Inl e
                | Inr fs \<Rightarrow>
                    Inr \<lparr>module_doc = doc, structs = ss, impls = ms, functions = fs\<rparr>)))"

section \<open>Scanning a component directory\<close>

text \<open>
  A component directory is the list of the files below it, in the order in which
  \<open>rglob\<close> yields them: the directories from the component down to the file, the file's
  name, and its text.
\<close>

type_synonym rust_file = "(string list \<times> string) \<times> string"

definition endswith :: "string \<Rightarrow> string \<Rightarrow> bool" where
  "endswith s p = startswith (rev s) (rev p)"

text \<open>The loop over \<open>component_dir.rglob("*.rs")\<close>.\<close>

fun scan_files :: "rustdata \<Rightarrow> rust_file list \<Rightarrow> py_error + rustdata" where
  "scan_files combined_data [] = Inr combined_data"
| "scan_files combined_data (rust_file # rest) =
     (if snd (fst rust_file) = ''mod.rs'' then scan_files combined_data rest
      else
        (case extract_from_file (snd rust_file) of
           Inl e \<Rightarrow> Inl e
         | Inr data \<Rightarrow>
             scan_files
               (combined_data\<lparr>impls := impls combined_data @ impls data,
                               functions := functions combined_data @ functions data\<rparr>)
               rest))"

definition scan_component :: "rust_file list \<Rightarrow> py_error + rustdata" where
  "scan_component component_dir =
     (let combined_data = \<lparr>module_doc = [], structs = [], impls = [], functions = []\<rparr>;
          rglob = filter (\<lambda>f. endswith (snd (fst f)) ''.rs'') component_dir in
      case map_of component_dir ([], ''mod.rs'') of
        None \<Rightarrow> scan_files combined_data rglob
      | Some content \<Rightarrow>
          (case extract_from_file content of
             Inl e \<Rightarrow> Inl e
           | Inr data \<Rightarrow>
               scan_files
                 (combined_data\<lparr>module_doc := module_doc data,
                                 structs := structs combined_data @ structs data\<rparr>)
                 rglob))"

section \<open>Notions used to state the properties\<close>

text \<open>The value of the flag \<open>code_block\<close> of \<open>format_rustdoc_to_markdown\<close> once its loop
  has read the given lines.\<close>

fun code_block_after :: "bool \<Rightarrow> string list \<Rightarrow> bool" where
  "code_block_after code_block [] = code_block"
| "code_block_after code_block (line # rest) =
     code_block_after (if startswith (strip line) ''```'' then \<not> code_block else code_block) rest"


text \<open>The groups that take part in every match of a pattern, and the names a matcher
  state has captured.\<close>

primrec sure_groups :: "regex \<Rightarrow> string set" where
  "sure_groups (Lit s) = {}"
| "sure_groups Dot = {}"
| "sure_groups Space = {}"
| "sure_groups Word = {}"
| "sure_groups (NoneOf cs) = {}"
| "sure_groups (Seq r1 r2) = sure_groups r1 \<union> sure_groups r2"
| "sure_groups (Star r) = {}"
| "sure_groups (Plus r) = sure_groups r"
| "sure_groups (Opt r) = {}"
| "sure_groups (Group name r) = insert name (sure_groups r)"

definition captured :: "mstate \<Rightarrow> string set" where
  "captured st = fst ` set (snd st)"

text \<open>The texts left to read after a greedy repetition of a character class, in the order
  in which the matcher tries them: the longest run first.\<close>

fun star_list :: "(char \<Rightarrow> bool) \<Rightarrow> string \<Rightarrow> string list" where
  "star_list P [] = [[]]"
| "star_list P (c # cs) = (if P c then star_list P cs @ [c # cs] else [c # cs])"

text \<open>The captures of the match Python reports among the matcher's results.\<close>

definition first_caps :: "mstate list \<Rightarrow> captures option" where
  "first_caps sts = (case sts of [] \<Rightarrow> None | st # _ \<Rightarrow> Some (snd st))"

text \<open>The parts of \<open>field_pattern\<close> after the name, after the blanks and after the colon.\<close>

abbreviation type_tail_re :: regex where
  "type_tail_re \<equiv> Seq (Star Space) (Group ''2'' (Plus (NoneOf '','')))"

abbreviation colon_re :: regex where
  "colon_re \<equiv> Seq (Lit '':'') type_tail_re"

abbreviation after_name_re :: regex where
  "after_name_re \<equiv> Seq (Star Space) colon_re"

text \<open>
  The field a stripped line yields, written without the matcher: the line must start with
  an identifier, optional blanks and a colon; the type is the text from the first
  non-blank character after the colon up to the first comma or the end of the line, with
  the blanks around it removed. There is no field when the comma or the end of the line
  follows the colon at once.
\<close>

definition field_spec :: "string \<Rightarrow> field option" where
  "field_spec line =
     (let name = takeWhile isword line;
          after_name = dropWhile isspace (dropWhile isword line) in
      if name = [] \<or> \<not> startswith after_name '':'' then None
      else
        (let after_colon = drop 1 after_name;
             text = takeWhile (\<lambda>c. c \<noteq> CHR '','') (dropWhile isspace after_colon) in
         if text = [] \<and> takeWhile isspace after_colon = [] then None
         else Some \<lparr>field_name = name, field_type = strip text\<rparr>))"

text \<open>The state after the match Python reports, if there is one.\<close>

definition first_match :: "regex \<Rightarrow> mstate \<Rightarrow> mstate option" where
  "first_match r st = (case matches r st of [] \<Rightarrow> None | x # _ \<Rightarrow> Some x)"

text \<open>
  A block of documentation lines as it stands in a file: each line is the marker \<open>///\<close>,
  its text, a newline and the blanks before the next line. The block is well formed when
  no text holds a newline and the blanks are blanks.
\<close>

definition doc_block :: "(string \<times> string) list \<Rightarrow> string" where
  "doc_block ls = concat (map (\<lambda>(t, ind). ''///'' @ t @ NL # ind) ls)"

definition doc_lines_ok :: "(string \<times> string) list \<Rightarrow> bool" where
  "doc_lines_ok ls = list_all (\<lambda>(t, ind). NL \<notin> set t \<and> list_all isspace ind) ls"








text \<open>The number of places at which a text occurs in another.\<close>

fun count_sub :: "string \<Rightarrow> string \<Rightarrow> nat" where
  "count_sub sub [] = 0"
| "count_sub sub (c # cs) = (if startswith (c # cs) sub then 1 else 0) + count_sub sub cs"

section \<open>Inputs used in the examples\<close>

text \<open>A unit whose only free function is an undocumented \<open>new\<close> and whose only method
  is an undocumented \<open>get\<close>.\<close>

definition undocumented_new :: rustdata where
  "undocumented_new =
     \<lparr>module_doc = [], structs = [],
      impls = [\<lparr>fn_name = ''get'', fn_docs = [], fn_params = ''&self'',
                fn_return = ''-> u8''\<rparr>],
      functions = [\<lparr>fn_name = ''new'', fn_docs = [], fn_params = [],
                    fn_return = ''-> Self''\<rparr>]\<rparr>"



text \<open>A text with a tagged fence around a heading-like line, a line of blanks and a
  starred line, followed by a heading.\<close>

definition fenced_doc :: string where
  "fenced_doc = ''Usage:\<newline>```rust,ignore\<newline># use x;\<newline>  \<newline>* y\<newline>```\<newline># Notes''"


text \<open>A file with no documentation, no struct, no impl block and no public function.\<close>

definition plain_rs :: string where
  "plain_rs = ''use std::fmt;\<newline>fn main() {}\<newline>''"


text \<open>An index file with a documented struct of two fields and the documented free
  function \<open>new_widget\<close>, what the extractor finds in it, and the unit of the component
  that has no other file.\<close>

definition widget_mod_rs :: string where
  "widget_mod_rs = ''//! Widgets.\<newline>/// A widget.\<newline>pub struct Widget {\<newline>    width: u16,\<newline>    height: u16,\<newline>}\<newline>\<newline>/// Makes a widget.\<newline>pub fn new_widget(w: u16) -> Widget {\<newline>    todo!()\<newline>}\<newline>''"

definition widget_struct :: struct where
  "widget_struct =
     \<lparr>struct_name = ''Widget'', struct_docs = ''A widget.'',
      struct_fields = [\<lparr>field_name = ''width'', field_type = ''u16''\<rparr>,
                       \<lparr>field_name = ''height'', field_type = ''u16''\<rparr>]\<rparr>"

definition new_widget :: callable where
  "new_widget =
     \<lparr>fn_name = ''new_widget'', fn_docs = ''Makes a widget.'', fn_params = ''w: u16'',
      fn_return = ''-> Widget''\<rparr>"

definition widget_unit :: rustdata where
  "widget_unit = \<lparr>module_doc = ''Widgets.'', structs = [widget_struct], impls = [], functions = []\<rparr>"






section \<open>Facts about the string primitives and Stage B\<close>








lemma shape_line_code: "shape_line True l = l"
  by (simp add: shape_line_def)


















lemma format_lines_append:
  "format_lines cb (xs @ ys) = format_lines cb xs @ format_lines (code_block_after cb xs) ys"
  by (induction xs arbitrary: cb) simp_all

lemma format_lines_body:
  "list_all (\<lambda>l. \<not> startswith (strip l) ''```'') body \<Longrightarrow>
   format_lines True (body @ rest) =
     map (\<lambda>l. if strip l = [] then [] else l) body @ format_lines True rest"
  by (induction body) (simp_all add: shape_line_code)







lemma fence_tag_rewritten:
  assumes "strip l = ''```rust,no_run'' \<or> strip l = ''```rust,ignore''"
  shows "fence_line l = ''```rust''"
proof -
  have a: "contains ''rust,no_run'' ''```rust,no_run''" by code_simp
  have b: "replace ''rust,ignore'' ''rust'' (replace ''rust,no_run'' ''rust'' ''```rust,no_run'') = ''```rust''"
    by code_simp
  have c: "contains ''rust,ignore'' ''```rust,ignore''" by code_simp
  have d: "replace ''rust,ignore'' ''rust'' (replace ''rust,no_run'' ''rust'' ''```rust,ignore'') = ''```rust''"
    by code_simp
  from assms show ?thesis
  proof
    assume "strip l = ''```rust,no_run''"
    with a b show ?thesis by (simp only: fence_line_def Let_def) simp
  next
    assume "strip l = ''```rust,ignore''"
    with c d show ?thesis by (simp only: fence_line_def Let_def) simp
  qed
qed

text \<open>
  C7, amended: a fence line whose stripped text is the fence with the tag \<open>rust,no_run\<close> or
  \<open>rust,ignore\<close> is written as the fence with the bare tag \<open>rust\<close>, and between a fence
  opener (read outside a code block) and the next fence line every line that is not
  whitespace-only is written unchanged, whatever it starts with; a whitespace-only line
  there is written as an empty line.
\<close>

theorem fenced_lines_kept:
  assumes "doc_text \<noteq> []"
    and "split_on NL doc_text = before @ opener # body @ closer # rest"
    and "\<not> code_block_after False before"
    and "startswith (strip opener) ''```''"
    and "list_all (\<lambda>l. \<not> startswith (strip l) ''```'') body"
    and "startswith (strip closer) ''```''"
  shows "format_rustdoc_to_markdown doc_text =
           join [NL] (format_lines False before @
                      fence_line opener # map (\<lambda>l. if strip l = [] then [] else l) body @
                      fence_line closer # format_lines False rest) \<and>
         (strip opener = ''```rust,no_run'' \<or> strip opener = ''```rust,ignore''
            \<longrightarrow> fence_line opener = ''```rust'')"
proof -
  have "format_lines False (opener # body @ closer # rest) =
        fence_line opener # map (\<lambda>l. if strip l = [] then [] else l) body @
        fence_line closer # format_lines False rest"
    using assms(4,6) by (simp add: format_lines_body [OF assms(5)])
  with assms(3) have "format_lines False (before @ opener # body @ closer # rest) =
        format_lines False before @
        fence_line opener # map (\<lambda>l. if strip l = [] then [] else l) body @
        fence_line closer # format_lines False rest"
    by (simp add: format_lines_append)
  with assms(1,2) show ?thesis
    by (simp add: format_rustdoc_to_markdown_def fence_tag_rewritten)
qed

text \<open>
  C7, as stated, fails for a content line made of blanks: the test for an empty stripped
  line comes before every test of \<open>code_block\<close>, so the line of two blanks between the
  fences is written as an empty line.
\<close>

theorem blank_line_in_fence:
  "format_rustdoc_to_markdown ''```\<newline>  \<newline>```'' = ''```\<newline>\<newline>```''"
  by code_simp

theorem fenced_lines_kept_witness:
  "format_rustdoc_to_markdown fenced_doc =
     ''Usage:\<newline>```rust\<newline># use x;\<newline>\<newline>* y\<newline>```\<newline>## Notes''"
proof -
  have 1: "fenced_doc \<noteq> []" by (simp add: fenced_doc_def)
  have 2: "split_on NL fenced_doc =
           [''Usage:''] @ ''```rust,ignore'' # [''# use x;'', ''  '', ''* y''] @ ''```'' # [''# Notes'']"
    unfolding fenced_doc_def by code_simp
  have 3: "\<not> code_block_after False [''Usage:'']" by code_simp
  have 4: "startswith (strip ''```rust,ignore'') ''```''" by code_simp
  have 5: "list_all (\<lambda>l. \<not> startswith (strip l) ''```'') [''# use x;'', ''  '', ''* y'']"
    by code_simp
  have 6: "startswith (strip ''```'') ''```''" by code_simp
  have 7: "strip ''```rust,ignore'' = ''```rust,ignore''" by code_simp
  have 8: "join [NL] (format_lines False [''Usage:''] @
                      ''```rust'' # map (\<lambda>l. if strip l = [] then [] else l) [''# use x;'', ''  '', ''* y''] @
                      fence_line ''```'' # format_lines False [''# Notes'']) =
       ''Usage:\<newline>```rust\<newline># use x;\<newline>\<newline>* y\<newline>```\<newline>## Notes''"
    by code_simp
  from fenced_lines_kept [OF 1 2 3 4 5 6] 7 8 show ?thesis by simp
qed


section \<open>The renderer's sections\<close>

lemma render_documented_filter:
  "render_documented fs = concat (map render_callable (filter (\<lambda>f. fn_docs f \<noteq> []) fs))"
  by (induction fs) (simp_all add: render_documented_def)

lemma is_constructor_new:
  "is_constructor \<lparr>fn_name = ''new'', fn_docs = [], fn_params = [], fn_return = ''-> Self''\<rparr>"
  by (simp add: is_constructor_def lower_def lower_char_def startswith_def)

text \<open>
  C2, as stated, fails: the heading of the section is written as soon as the list the loop
  runs over is non-empty, whether or not any of its callables is documented. For
  \<open>undocumented_new\<close> both headings are written although no callable has documentation.
\<close>

theorem heading_without_entries:
  "constructors_section undocumented_new = ''## Constructors\<newline>\<newline>'' \<and>
   \<not> list_ex (\<lambda>f. is_constructor f \<and> fn_docs f \<noteq> []) (functions undocumented_new) \<and>
   methods_section undocumented_new = ''## Methods\<newline>\<newline>'' \<and>
   \<not> list_ex (\<lambda>f. fn_docs f \<noteq> []) (impls undocumented_new)"
  by (simp add: constructors_section_def constructors_def methods_section_def
      render_documented_def undocumented_new_def is_constructor_new)

text \<open>
  C2, amended: the "Constructors" heading is written if and only if some free function has
  a constructor name (documented or not), and below it come the blocks of exactly the
  documented ones among them; the "Methods" heading is written if and only if the method
  sequence is non-empty, and below it come the blocks of its documented callables.
\<close>

theorem section_headings:
  "(constructors_section data \<noteq> [] \<longleftrightarrow> list_ex is_constructor (functions data)) \<and>
   (methods_section data \<noteq> [] \<longleftrightarrow> impls data \<noteq> []) \<and>
   constructors_section data =
     (if list_ex is_constructor (functions data)
      then ''## Constructors\<newline>\<newline>'' @
           concat (map render_callable
             (filter (\<lambda>f. is_constructor f \<and> fn_docs f \<noteq> []) (functions data)))
      else []) \<and>
   methods_section data =
     (if impls data \<noteq> []
      then ''## Methods\<newline>\<newline>'' @
           concat (map render_callable (filter (\<lambda>f. fn_docs f \<noteq> []) (impls data)))
      else [])"
proof -
  have ne: "(filter is_constructor (functions data) \<noteq> []) =
            list_ex is_constructor (functions data)"
    by (simp add: filter_empty_conv list_ex_iff)
  show ?thesis
    by (simp add: constructors_section_def methods_section_def constructors_def
        render_documented_filter ne conj_commute)
qed

theorem section_headings_witness:
  "constructors_section undocumented_new \<noteq> [] \<and> methods_section undocumented_new \<noteq> []"
proof -
  have c: "list_ex is_constructor (functions undocumented_new)"
    by (simp add: undocumented_new_def is_constructor_new)
  have m: "impls undocumented_new \<noteq> []"
    by (simp add: undocumented_new_def)
  from section_headings [of undocumented_new] c m show ?thesis
    by blast
qed



section \<open>Stage A of the normalizer\<close>

text \<open>
  C3: \<open>lstrip("/// ")\<close> removes every leading slash, bang and blank, not the marker, and
  it starts from the unstripped line. A documentation line whose text starts with one of
  these characters loses them, and a marker behind a tab stays; the two lines of the spec's
  example come out as the spec says.
\<close>

theorem clean_rustdoc_overstrips:
  "clean_rustdoc ''/// /etc/app is read first'' = ''etc/app is read first'' \<and>
   clean_rustdoc ''//! !Send types only'' = ''Send types only'' \<and>
   clean_rustdoc (''/// a'' @ [NL, CHR 0x09] @ ''/// b'') = ''a'' @ [NL] @ ''/// b'' \<and>
   clean_rustdoc ''//! a\<newline>//! b'' = ''a\<newline>b''"
  by (simp add: clean_rustdoc_def clean_line_def strip_def startswith_def lstrip_chars_def
      isspace_def)

section \<open>The extractor never raises\<close>

lemma match_char_caps: "st' \<in> set (match_char P st) \<Longrightarrow> captured st' = captured st"
  by (cases "(P, st)" rule: match_char.cases) (auto simp: captured_def split: if_splits)

lemma star_iter_caps:
  assumes "\<And>x y. y \<in> set (f x) \<Longrightarrow> captured x \<subseteq> captured y"
  shows "st' \<in> set (star_iter f n st) \<Longrightarrow> captured st \<subseteq> captured st'"
proof (induction n arbitrary: st)
  case 0
  then show ?case by simp
next
  case (Suc n)
  from Suc.prems consider "st' = st"
    | mid where "mid \<in> set (f st)" "st' \<in> set (star_iter f n mid)"
    by auto
  then show ?case
  proof cases
    case 1
    then show ?thesis by simp
  next
    case 2
    from assms [OF 2(1)] Suc.IH [OF 2(2)] show ?thesis by blast
  qed
qed

lemma matches_groups:
  "st' \<in> set (matches r st) \<Longrightarrow>
   captured st \<subseteq> captured st' \<and> sure_groups r \<subseteq> captured st'"
proof (induction r arbitrary: st st')
  case (Lit s)
  then show ?case by (auto simp: captured_def split: if_splits)
next
  case Dot
  then show ?case using match_char_caps by fastforce
next
  case Space
  then show ?case using match_char_caps by fastforce
next
  case Word
  then show ?case using match_char_caps by fastforce
next
  case (NoneOf cs)
  then show ?case using match_char_caps by fastforce
next
  case (Seq r1 r2)
  from Seq.prems obtain mid where m: "mid \<in> set (matches r1 st)" "st' \<in> set (matches r2 mid)"
    by auto
  from Seq.IH(1) [OF m(1)] Seq.IH(2) [OF m(2)] show ?case by auto
next
  case (Star r)
  have "captured st \<subseteq> captured st'"
  proof (rule star_iter_caps [of "matches r"])
    show "captured x \<subseteq> captured y" if "y \<in> set (matches r x)" for x y
      using Star.IH [OF that] by simp
    show "st' \<in> set (star_iter (matches r) (length (fst st)) st)"
      using Star.prems by simp
  qed
  then show ?case by simp
next
  case (Plus r)
  from Plus.prems obtain mid where m: "mid \<in> set (matches r st)"
    "st' \<in> set (star_iter (matches r) (length (fst mid)) mid)"
    by auto
  have "captured mid \<subseteq> captured st'"
  proof (rule star_iter_caps [of "matches r"])
    show "captured x \<subseteq> captured y" if "y \<in> set (matches r x)" for x y
      using Plus.IH [OF that] by simp
    show "st' \<in> set (star_iter (matches r) (length (fst mid)) mid)"
      by (rule m(2))
  qed
  with Plus.IH [OF m(1)] show ?case by auto
next
  case (Opt r)
  from Opt.prems have "st' \<in> set (matches r st) \<or> st' = st" by auto
  then show ?case
  proof
    assume "st' \<in> set (matches r st)"
    from Opt.IH [OF this] show ?thesis by simp
  next
    assume "st' = st"
    then show ?thesis by simp
  qed
next
  case (Group name r)
  from Group.prems obtain mid where m: "mid \<in> set (matches r st)" "st' = capture name st mid"
    by auto
  have "captured st' = insert name (captured mid)"
    by (simp add: m(2) capture_def captured_def)
  with Group.IH [OF m(1)] show ?case by auto
qed

lemma finditer_match:
  "m \<in> set (finditer r s) \<Longrightarrow> \<exists>s0 st. st \<in> set (matches r (s0, [])) \<and> m = snd st"
proof (induction r s rule: finditer.induct)
  case (1 r)
  then show ?case by (auto split: list.splits) (metis list.set_intros(1))
next
  case (2 r c cs)
  show ?case
  proof (cases "matches r (c # cs, [])")
    case Nil
    with 2 show ?thesis by simp
  next
    case (Cons st sts)
    then have here: "st \<in> set (matches r (c # cs, []))" by simp
    from 2(4) Cons consider "m = snd st"
      | "length (fst st) < length (c # cs)" "m \<in> set (finditer r (fst st))"
      | "\<not> length (fst st) < length (c # cs)" "m \<in> set (finditer r cs)"
      by (auto split: if_splits)
    then show ?thesis
    proof cases
      case 1
      with here show ?thesis by blast
    next
      case 2
      with "2.IH"(2) [OF Cons] show ?thesis by blast
    next
      case 3
      with "2.IH"(3) [OF Cons] show ?thesis by blast
    qed
  qed
qed

lemma finditer_groups:
  assumes "m \<in> set (finditer r s)" "name \<in> sure_groups r"
  shows "\<exists>t. group m name = Some t"
proof -
  from finditer_match [OF assms(1)] obtain s0 st
    where "st \<in> set (matches r (s0, []))" "m = snd st" by blast
  with matches_groups [of st r "(s0, [])"] assms(2) have "name \<in> fst ` set m"
    by (auto simp: captured_def)
  then show ?thesis by (cases "map_of m name") (auto simp: group_def map_of_eq_None_iff)
qed

lemma re_match_groups:
  assumes "re_match r s = Some m" "name \<in> sure_groups r"
  shows "\<exists>t. group m name = Some t"
proof -
  from assms(1) obtain st where "st \<in> set (matches r (s, []))" "m = snd st"
    by (auto simp: re_match_def split: list.splits)
  with matches_groups [of st r "(s, [])"] assms(2) have "name \<in> fst ` set m"
    by (auto simp: captured_def)
  then show ?thesis by (cases "map_of m name") (auto simp: group_def map_of_eq_None_iff)
qed

lemma collect_total:
  "(\<And>x. x \<in> set xs \<Longrightarrow> \<exists>ys. f x = Inr ys) \<Longrightarrow> \<exists>zs. collect f xs = Inr zs"
proof (induction xs)
  case Nil
  then show ?case by simp
next
  case (Cons x xs)
  from Cons.prems obtain ys where "f x = Inr ys" by auto
  moreover from Cons obtain zs where "collect f xs = Inr zs" by auto
  ultimately show ?case by simp
qed

lemma collect_Nil: "collect f [] = Inr []"
  by simp

lemma parse_field_line_total: "\<exists>fs. parse_field_line raw = Inr fs"
proof (cases "re_match field_pattern (strip raw)")
  case None
  then show ?thesis by (simp add: parse_field_line_def Let_def)
next
  case (Some m)
  have "''1'' \<in> sure_groups field_pattern" "''2'' \<in> sure_groups field_pattern"
    by (simp_all add: field_pattern_def)
  from this [THEN re_match_groups [OF Some]] obtain a b
    where "group m ''1'' = Some a" "group m ''2'' = Some b" by blast
  with Some show ?thesis by (simp add: parse_field_line_def Let_def)
qed

lemma struct_of_match_total:
  assumes "m \<in> set (finditer struct_pattern content)"
  shows "\<exists>ss. struct_of_match m = Inr ss"
proof -
  have "''name'' \<in> sure_groups struct_pattern" "''body'' \<in> sure_groups struct_pattern"
    by (simp_all add: struct_pattern_def)
  from this [THEN finditer_groups [OF assms]] obtain a b
    where g: "group m ''name'' = Some a" "group m ''body'' = Some b" by blast
  obtain fs where "collect parse_field_line (split_on NL b) = Inr fs"
    using collect_total [of "split_on NL b" parse_field_line] parse_field_line_total by blast
  with g show ?thesis by (simp add: struct_of_match_def Let_def)
qed

lemma callable_of_match_total:
  assumes "m \<in> set (finditer func_pattern content)"
  shows "\<exists>fs. callable_of_match m = Inr fs"
proof -
  have "''name'' \<in> sure_groups func_pattern" "''params'' \<in> sure_groups func_pattern"
    by (simp_all add: func_pattern_def)
  from this [THEN finditer_groups [OF assms]] obtain a b
    where g: "group m ''name'' = Some a" "group m ''params'' = Some b" by blast
  then show ?thesis by (simp add: callable_of_match_def Let_def)
qed

lemma methods_of_impl_total:
  assumes "m \<in> set (finditer impl_pattern content)"
  shows "\<exists>fs. methods_of_impl m = Inr fs"
proof -
  have "''body'' \<in> sure_groups impl_pattern"
    by (simp add: impl_pattern_def)
  from finditer_groups [OF assms this] obtain b where g: "group m ''body'' = Some b" by blast
  obtain fs where "collect callable_of_match (finditer method_pattern b) = Inr fs"
    using collect_total [of "finditer method_pattern b" callable_of_match]
      callable_of_match_total [of _ b] by (auto simp: method_pattern_def)
  with g show ?thesis by (simp add: methods_of_impl_def)
qed

text \<open>
  C8: \<open>extract_from_file\<close> is a total function that returns a record for every text,
  never an exception: every group the loops call a string method on takes part in every
  match. A part whose pattern is found nowhere is the empty string or the empty list.
\<close>

theorem extract_from_file_total:
  "\<exists>data. extract_from_file content = Inr data \<and>
     (module_matches content = [] \<longrightarrow> module_doc data = []) \<and>
     (finditer struct_pattern content = [] \<longrightarrow> structs data = []) \<and>
     (finditer impl_pattern content = [] \<longrightarrow> impls data = []) \<and>
     (finditer func_pattern content = [] \<longrightarrow> functions data = [])"
proof -
  obtain ss where ss: "collect struct_of_match (finditer struct_pattern content) = Inr ss"
    using collect_total [of "finditer struct_pattern content" struct_of_match]
      struct_of_match_total by blast
  obtain ms where ms: "collect methods_of_impl (finditer impl_pattern content) = Inr ms"
    using collect_total [of "finditer impl_pattern content" methods_of_impl]
      methods_of_impl_total by blast
  obtain fs where fs: "collect callable_of_match (finditer func_pattern content) = Inr fs"
    using collect_total [of "finditer func_pattern content" callable_of_match]
      callable_of_match_total by blast
  have "finditer struct_pattern content = [] \<longrightarrow> ss = []" using ss by auto
  moreover have "finditer impl_pattern content = [] \<longrightarrow> ms = []" using ms by auto
  moreover have "finditer func_pattern content = [] \<longrightarrow> fs = []" using fs by auto
  ultimately show ?thesis using ss ms fs
    by (simp add: extract_from_file_def Let_def)
qed

theorem extract_from_file_total_witness:
  "extract_from_file plain_rs = Inr \<lparr>module_doc = [], structs = [], impls = [], functions = []\<rparr>"
proof -
  have 1: "module_matches plain_rs = []" unfolding plain_rs_def by code_simp
  have 2: "finditer struct_pattern plain_rs = []" unfolding plain_rs_def by code_simp
  have 3: "finditer impl_pattern plain_rs = []" unfolding plain_rs_def by code_simp
  have 4: "finditer func_pattern plain_rs = []" unfolding plain_rs_def by code_simp
  from extract_from_file_total [of plain_rs] 1 2 3 4 obtain data
    where "extract_from_file plain_rs = Inr data" "module_doc data = []" "structs data = []"
      "impls data = []" "functions data = []"
    by blast
  then show ?thesis by (cases data) simp
qed


section \<open>The fields of a struct body\<close>

lemma star_iter_char:
  "length s \<le> n \<Longrightarrow> star_iter (match_char P) n (s, g) = map (\<lambda>t. (t, g)) (star_list P s)"
proof (induction n arbitrary: s)
  case 0
  then show ?case by simp
next
  case (Suc n)
  show ?case
  proof (cases s)
    case Nil
    then show ?thesis by simp
  next
    case (Cons c cs)
    with Suc.prems have "length cs \<le> n" by simp
    from Suc.IH [OF this] Cons show ?thesis by simp
  qed
qed

lemma star_list_head:
  "\<exists>more. star_list P s = dropWhile P s # more \<and> (\<forall>t\<in>set more. t \<noteq> [] \<and> P (hd t))"
proof (induction s)
  case Nil
  then show ?case by simp
next
  case (Cons c cs)
  then obtain more where m: "star_list P cs = dropWhile P cs # more"
    "\<forall>t\<in>set more. t \<noteq> [] \<and> P (hd t)" by blast
  show ?case
  proof (cases "P c")
    case True
    with m have "star_list P (c # cs) = dropWhile P (c # cs) # (more @ [c # cs])"
      "\<forall>t\<in>set (more @ [c # cs]). t \<noteq> [] \<and> P (hd t)" by simp_all
    then show ?thesis by blast
  next
    case False
    then show ?thesis by simp
  qed
qed

lemma star_list_stuck: "takeWhile P s = [] \<Longrightarrow> star_list P s = [s]"
  by (cases s) (auto split: if_splits)

lemma star_list_second:
  "takeWhile P s \<noteq> [] \<Longrightarrow>
   \<exists>more. star_list P s = dropWhile P s # (last (takeWhile P s) # dropWhile P s) # more"
proof (induction s)
  case Nil
  then show ?case by simp
next
  case (Cons c cs)
  then have pc: "P c" by (auto split: if_splits)
  show ?case
  proof (cases "takeWhile P cs = []")
    case True
    then have "star_list P cs = [cs]" "dropWhile P cs = cs"
      by (simp_all add: star_list_stuck) (metis append_Nil takeWhile_dropWhile_id)
    with pc True show ?thesis by simp
  next
    case False
    from Cons.IH [OF this] obtain more
      where "star_list P cs = dropWhile P cs # (last (takeWhile P cs) # dropWhile P cs) # more"
      by blast
    with pc False show ?thesis by simp
  qed
qed

lemma take_takeWhile: "take (length s - length (dropWhile P s)) s = takeWhile P s"
proof -
  have "length s = length (takeWhile P s) + length (dropWhile P s)"
    by (metis length_append takeWhile_dropWhile_id)
  then have "length s - length (dropWhile P s) = length (takeWhile P s)" by simp
  then show ?thesis by (metis append_eq_conv_conj takeWhile_dropWhile_id)
qed

lemma concat_map_head:
  "\<forall>y\<in>set xs. f y = [] \<Longrightarrow> concat (map f (x # xs)) = f x"
  by (induction xs) simp_all

lemma matches_Seq: "matches (Seq r1 r2) st = concat (map (matches r2) (matches r1 st))"
  by simp

lemma matches_Lit:
  "matches (Lit s) (t, g) = (if startswith t s then [(drop (length s) t, g)] else [])"
  by simp

lemma matches_star_char:
  "matches (Star Space) (s, g) = map (\<lambda>t. (t, g)) (star_list isspace s)"
  "matches (Star Word) (s, g) = map (\<lambda>t. (t, g)) (star_list isword s)"
  "matches (Star (NoneOf cs)) (s, g) = map (\<lambda>t. (t, g)) (star_list (\<lambda>c. c \<notin> set cs) s)"
  by (simp_all add: star_iter_char)

lemma matches_plus_char:
  "matches (Plus Word) (s, g) =
     (case s of [] \<Rightarrow> [] | c # cs \<Rightarrow> if isword c then map (\<lambda>t. (t, g)) (star_list isword cs) else [])"
  "matches (Plus (NoneOf xs)) (s, g) =
     (case s of [] \<Rightarrow> []
      | c # cs \<Rightarrow> if c \<notin> set xs then map (\<lambda>t. (t, g)) (star_list (\<lambda>c. c \<notin> set xs) cs) else [])"
  by (cases s; simp add: star_iter_char)+

lemma char_classes:
  "isword c \<Longrightarrow> \<not> isspace c" "isword c \<Longrightarrow> c \<noteq> CHR '':''"
  "isspace c \<Longrightarrow> c \<noteq> CHR '':''" "isspace c \<Longrightarrow> c \<noteq> CHR '',''"
  "\<not> isword CHR ''/''"
  by (auto simp: isword_def isspace_def)

lemma takeWhile_Nil_hd: "t \<noteq> [] \<Longrightarrow> \<not> P (hd t) \<Longrightarrow> takeWhile P t = []"
  by (cases t) simp_all

lemma type_group_at:
  "matches (Group ''2'' (Plus (NoneOf '',''))) (t, g) =
     (case t of
        [] \<Rightarrow> []
      | c # cs \<Rightarrow>
          if c \<noteq> CHR '','' then
            map (\<lambda>u. (u, (''2'', take (length t - length u) t) # g))
              (star_list (\<lambda>c. c \<noteq> CHR '','') cs)
          else [])"
  by (cases t) (simp_all add: star_iter_char capture_def comp_def)

declare matches.simps [simp del]

lemma type_group_head:
  assumes "takeWhile (\<lambda>c. c \<noteq> CHR '','') t \<noteq> []"
  shows "\<exists>rest. matches (Group ''2'' (Plus (NoneOf '',''))) (t, g) =
           (dropWhile (\<lambda>c. c \<noteq> CHR '','') t, (''2'', takeWhile (\<lambda>c. c \<noteq> CHR '','') t) # g) # rest"
proof -
  from assms obtain c cs where t: "t = c # cs" "c \<noteq> CHR '',''"
    by (cases t) (auto split: if_splits)
  obtain more where m: "star_list (\<lambda>c. c \<noteq> CHR '','') cs = dropWhile (\<lambda>c. c \<noteq> CHR '','') cs # more"
    using star_list_head by blast
  have d: "dropWhile (\<lambda>c. c \<noteq> CHR '','') t = dropWhile (\<lambda>c. c \<noteq> CHR '','') cs"
    using t by simp
  have "take (length t - length (dropWhile (\<lambda>c. c \<noteq> CHR '','') cs)) t = takeWhile (\<lambda>c. c \<noteq> CHR '','') t"
    using take_takeWhile [of t "\<lambda>c. c \<noteq> CHR '',''"] d by simp
  with t m d show ?thesis unfolding type_group_at by simp
qed

lemma type_group_none:
  "takeWhile (\<lambda>c. c \<noteq> CHR '','') t = [] \<Longrightarrow> matches (Group ''2'' (Plus (NoneOf '',''))) (t, g) = []"
  unfolding type_group_at by (cases t) (auto split: if_splits)

lemma type_tail:
  "first_caps (matches (Seq (Star Space) (Group ''2'' (Plus (NoneOf '','')))) (r2, g)) =
     (if takeWhile (\<lambda>c. c \<noteq> CHR '','') (dropWhile isspace r2) \<noteq> []
      then Some ((''2'', takeWhile (\<lambda>c. c \<noteq> CHR '','') (dropWhile isspace r2)) # g)
      else if takeWhile isspace r2 \<noteq> []
      then Some ((''2'', [last (takeWhile isspace r2)]) # g)
      else None)"
proof -
  let ?nc = "\<lambda>c. c \<noteq> CHR '',''"
  let ?G = "matches (Group ''2'' (Plus (NoneOf '','')))"
  let ?r3 = "dropWhile isspace r2"
  have seq: "matches (Seq (Star Space) (Group ''2'' (Plus (NoneOf '','')))) (r2, g) =
       concat (map ?G (map (\<lambda>t. (t, g)) (star_list isspace r2)))"
    by (simp only: matches_Seq matches_star_char)
  show ?thesis
  proof (cases "takeWhile ?nc ?r3 \<noteq> []")
    case True
    obtain more where "star_list isspace r2 = ?r3 # more"
      using star_list_head by blast
    moreover from type_group_head [OF True] obtain rest
      where "?G (?r3, g) = (dropWhile ?nc ?r3, (''2'', takeWhile ?nc ?r3) # g) # rest"
      by blast
    ultimately show ?thesis using True by (simp add: seq first_caps_def)
  next
    case False
    then have none: "?G (?r3, g) = []" by (simp add: type_group_none)
    show ?thesis
    proof (cases "takeWhile isspace r2 \<noteq> []")
      case True
      let ?z = "last (takeWhile isspace r2)"
      from star_list_second [OF True] obtain more
        where sl: "star_list isspace r2 = ?r3 # (?z # ?r3) # more" by blast
      have "?z \<in> set (takeWhile isspace r2)" using True by simp
      then have "isspace ?z" by (rule set_takeWhileD [THEN conjunct2])
      then have "?z \<noteq> CHR '',''" by (rule char_classes)
      with False have tw: "takeWhile ?nc (?z # ?r3) = [?z]" by simp
      then have "takeWhile ?nc (?z # ?r3) \<noteq> []" by simp
      from type_group_head [OF this] tw obtain rest
        where "?G (?z # ?r3, g) = (dropWhile ?nc (?z # ?r3), (''2'', [?z]) # g) # rest"
        by auto
      with sl none False True show ?thesis by (simp add: seq first_caps_def)
    next
      case nosp: False
      then have "star_list isspace r2 = [r2]" "?r3 = r2"
        by (simp_all add: star_list_stuck) (metis append_Nil takeWhile_dropWhile_id)
      with none False nosp show ?thesis by (simp add: seq first_caps_def)
    qed
  qed
qed

lemma field_pattern_Seq: "field_pattern = Seq (Group ''1'' (Plus Word)) after_name_re"
  by (simp add: field_pattern_def)

lemma startswith_colon: "startswith t '':'' = (t \<noteq> [] \<and> hd t = CHR '':'')"
  by (cases t) (simp_all add: startswith_def)

lemma colon_re_at:
  "matches colon_re (t, g) =
     (if startswith t '':'' then matches type_tail_re (drop 1 t, g) else [])"
  by (simp add: matches_Seq [of "Lit '':''"] matches_Lit)

lemma after_name_stuck:
  assumes "t \<noteq> []" "isword (hd t)"
  shows "matches after_name_re (t, g) = []"
proof -
  from assms have "takeWhile isspace t = []"
    by (intro takeWhile_Nil_hd) (simp_all add: char_classes)
  then have "star_list isspace t = [t]" by (rule star_list_stuck)
  moreover from assms have "\<not> startswith t '':''"
    using char_classes(2) by (auto simp: startswith_colon)
  ultimately show ?thesis
    by (simp add: matches_Seq [of "Star Space"] matches_star_char colon_re_at)
qed

lemma after_name_at:
  "matches after_name_re (w, g) =
     (if startswith (dropWhile isspace w) '':''
      then matches type_tail_re (drop 1 (dropWhile isspace w), g) else [])"
proof -
  obtain more where m: "star_list isspace w = dropWhile isspace w # more"
    "\<forall>t\<in>set more. t \<noteq> [] \<and> isspace (hd t)"
    using star_list_head by blast
  have "\<forall>y\<in>set (map (\<lambda>t. (t, g)) more). matches colon_re y = []"
  proof
    fix y assume "y \<in> set (map (\<lambda>t. (t, g)) more)"
    then obtain t where t: "y = (t, g)" "t \<in> set more" by auto
    with m(2) have "t \<noteq> []" "isspace (hd t)" by auto
    then have "\<not> startswith t '':''"
      using char_classes(3) by (auto simp: startswith_colon)
    with t show "matches colon_re y = []" by (simp add: colon_re_at)
  qed
  from concat_map_head [OF this, of "(dropWhile isspace w, g)"] m(1) show ?thesis
    by (simp add: matches_Seq [of "Star Space"] matches_star_char colon_re_at)
qed

lemma name_group_at:
  "matches (Group ''1'' (Plus Word)) (line, g) =
     (case line of
        [] \<Rightarrow> []
      | c # cs \<Rightarrow>
          if isword c then
            map (\<lambda>u. (u, (''1'', take (length line - length u) line) # g)) (star_list isword cs)
          else [])"
  by (cases line) (simp_all add: matches.simps star_iter_char capture_def comp_def)

lemma field_pattern_at:
  "matches field_pattern (line, []) =
     (if takeWhile isword line = [] then []
      else matches after_name_re (dropWhile isword line, [(''1'', takeWhile isword line)]))"
proof (cases "takeWhile isword line = []")
  case True
  then have "matches (Group ''1'' (Plus Word)) (line, []) = []"
    unfolding name_group_at by (cases line) (auto split: if_splits)
  with True show ?thesis by (simp add: field_pattern_Seq matches_Seq [of "Group ''1'' (Plus Word)"])
next
  case False
  then obtain c cs where l: "line = c # cs" "isword c"
    by (cases line) (auto split: if_splits)
  obtain more where m: "star_list isword cs = dropWhile isword cs # more"
    "\<forall>t\<in>set more. t \<noteq> [] \<and> isword (hd t)"
    using star_list_head by blast
  let ?cap = "\<lambda>u. (u, [(''1'', take (length line - length u) line)])"
  have d: "dropWhile isword line = dropWhile isword cs" using l by simp
  have "take (length line - length (dropWhile isword cs)) line = takeWhile isword line"
    using take_takeWhile [of line isword] d by simp
  then have hd_state: "?cap (dropWhile isword cs) = (dropWhile isword line, [(''1'', takeWhile isword line)])"
    using d by simp
  have g1: "matches (Group ''1'' (Plus Word)) (line, []) = ?cap (dropWhile isword cs) # map ?cap more"
    unfolding name_group_at using l m(1) by simp
  have "\<forall>y\<in>set (map ?cap more). matches after_name_re y = []"
  proof
    fix y assume "y \<in> set (map ?cap more)"
    then obtain t where t: "y = ?cap t" "t \<in> set more" by auto
    with m(2) have "t \<noteq> []" "isword (hd t)" by auto
    from after_name_stuck [OF this] t(1) show "matches after_name_re y = []" by simp
  qed
  from concat_map_head [OF this, of "?cap (dropWhile isword cs)"]
  have "matches field_pattern (line, []) = matches after_name_re (?cap (dropWhile isword cs))"
    by (simp add: field_pattern_Seq matches_Seq [of "Group ''1'' (Plus Word)"] g1)
  with False show ?thesis by (simp add: d [symmetric] take_takeWhile)
qed

lemma re_match_field:
  "re_match field_pattern line =
     (let name = takeWhile isword line;
          after_name = dropWhile isspace (dropWhile isword line) in
      if name = [] \<or> \<not> startswith after_name '':'' then None
      else
        (let after_colon = drop 1 after_name;
             text = takeWhile (\<lambda>c. c \<noteq> CHR '','') (dropWhile isspace after_colon) in
         if text \<noteq> [] then Some [(''2'', text), (''1'', name)]
         else if takeWhile isspace after_colon \<noteq> []
         then Some [(''2'', [last (takeWhile isspace after_colon)]), (''1'', name)]
         else None))"
proof -
  have "re_match field_pattern line = first_caps (matches field_pattern (line, []))"
    by (simp add: re_match_def first_caps_def)
  also have "\<dots> =
     (if takeWhile isword line = [] \<or> \<not> startswith (dropWhile isspace (dropWhile isword line)) '':''
      then None
      else first_caps (matches type_tail_re
             (drop 1 (dropWhile isspace (dropWhile isword line)), [(''1'', takeWhile isword line)])))"
    by (simp add: field_pattern_at after_name_at first_caps_def)
  finally show ?thesis by (simp add: type_tail Let_def)
qed

lemma strip_Nil: "strip [] = []"
  by (simp add: strip_def)

lemma strip_space: "isspace z \<Longrightarrow> strip [z] = []"
  by (simp add: strip_def)

lemma field_spec_no_word:
  "takeWhile isword line = [] \<Longrightarrow> field_spec line = None"
  by (simp add: field_spec_def)

lemma strip_last_space:
  assumes "takeWhile isspace t \<noteq> []"
  shows "strip [last (takeWhile isspace t)] = []"
proof -
  from assms have "last (takeWhile isspace t) \<in> set (takeWhile isspace t)"
    by simp
  then have "isspace (last (takeWhile isspace t))"
    by (rule set_takeWhileD [THEN conjunct2])
  then show ?thesis by (rule strip_space)
qed

lemma parse_field_line_spec:
  "parse_field_line raw = Inr (case field_spec (strip raw) of None \<Rightarrow> [] | Some f \<Rightarrow> [f])"
proof (cases "strip raw \<noteq> [] \<and> \<not> startswith (strip raw) ''//''")
  case True
  then show ?thesis
    by (simp add: parse_field_line_def re_match_field field_spec_def Let_def group_def
        strip_last_space strip_Nil)
next
  case False
  then have "takeWhile isword (strip raw) = []"
    by (cases "strip raw") (auto simp: startswith_def char_classes)
  with False show ?thesis
    by (auto simp: parse_field_line_def Let_def field_spec_no_word)
qed

lemma field_spec_shape:
  assumes "field_spec line = Some f"
  shows "\<exists>ws1 ws2 text rest.
           line = field_name f @ ws1 @ '':'' @ ws2 @ text @ rest \<and>
           field_name f \<noteq> [] \<and> list_all isword (field_name f) \<and>
           list_all isspace ws1 \<and> list_all isspace ws2 \<and>
           CHR '','' \<notin> set text \<and> (rest = [] \<or> hd rest = CHR '','') \<and>
           field_type f = strip text"
proof -
  let ?nc = "\<lambda>c. c \<noteq> CHR '',''"
  let ?w = "dropWhile isword line"
  let ?a = "dropWhile isspace ?w"
  let ?ac = "drop 1 ?a"
  let ?r3 = "dropWhile isspace ?ac"
  from assms have n: "takeWhile isword line \<noteq> []" and col: "startswith ?a '':''"
    and f: "f = \<lparr>field_name = takeWhile isword line, field_type = strip (takeWhile ?nc ?r3)\<rparr>"
    by (auto simp: field_spec_def Let_def split: if_splits)
  from col have a: "?a = CHR '':'' # ?ac" by (cases ?a) (simp_all add: startswith_def)
  have "line = takeWhile isword line @ ?w" by simp
  also have "?w = takeWhile isspace ?w @ ?a" by simp
  also have "?a = '':'' @ ?ac" using a by simp
  also have "?ac = takeWhile isspace ?ac @ ?r3" by simp
  also have "?r3 = takeWhile ?nc ?r3 @ dropWhile ?nc ?r3" by simp
  finally have shape: "line = takeWhile isword line @ takeWhile isspace ?w @ '':'' @
      takeWhile isspace ?ac @ takeWhile ?nc ?r3 @ dropWhile ?nc ?r3" .
  have 1: "list_all isword (takeWhile isword line)"
    by (auto simp: list_all_iff dest: set_takeWhileD)
  have 2: "list_all isspace (takeWhile isspace ?w)"
    by (auto simp: list_all_iff dest: set_takeWhileD)
  have 3: "list_all isspace (takeWhile isspace ?ac)"
    by (auto simp: list_all_iff dest: set_takeWhileD)
  have 4: "CHR '','' \<notin> set (takeWhile ?nc ?r3)"
    by (auto dest: set_takeWhileD)
  have 5: "dropWhile ?nc ?r3 = [] \<or> hd (dropWhile ?nc ?r3) = CHR '',''"
    using hd_dropWhile [of ?nc ?r3] by auto
  from shape n 1 2 3 4 5 f show ?thesis
    by (intro exI [of _ "takeWhile isspace ?w"] exI [of _ "takeWhile isspace ?ac"]
        exI [of _ "takeWhile ?nc ?r3"] exI [of _ "dropWhile ?nc ?r3"]) simp
qed

text \<open>
  C5, amended: for every line of a struct body, field parsing raises nothing and appends
  either no field or one field, the one \<open>field_spec\<close> describes: its name is the
  identifier the stripped line starts with, which optional blanks and the first colon
  follow, and its type is the text after that colon up to the first comma of the line,
  nested or not, without the blanks around it.
\<close>

theorem field_line_parsed:
  "parse_field_line raw = Inr (case field_spec (strip raw) of None \<Rightarrow> [] | Some f \<Rightarrow> [f]) \<and>
   (\<forall>f. parse_field_line raw = Inr [f] \<longrightarrow>
      (\<exists>ws1 ws2 text rest.
         strip raw = field_name f @ ws1 @ '':'' @ ws2 @ text @ rest \<and>
         field_name f \<noteq> [] \<and> list_all isword (field_name f) \<and>
         list_all isspace ws1 \<and> list_all isspace ws2 \<and>
         CHR '','' \<notin> set text \<and> (rest = [] \<or> hd rest = CHR '','') \<and>
         field_type f = strip text))"
proof (intro conjI allI impI)
  show "parse_field_line raw = Inr (case field_spec (strip raw) of None \<Rightarrow> [] | Some f \<Rightarrow> [f])"
    by (rule parse_field_line_spec)
next
  fix f assume "parse_field_line raw = Inr [f]"
  then have "field_spec (strip raw) = Some f"
    by (simp add: parse_field_line_spec split: option.splits)
  then show "\<exists>ws1 ws2 text rest.
         strip raw = field_name f @ ws1 @ '':'' @ ws2 @ text @ rest \<and>
         field_name f \<noteq> [] \<and> list_all isword (field_name f) \<and>
         list_all isspace ws1 \<and> list_all isspace ws2 \<and>
         CHR '','' \<notin> set text \<and> (rest = [] \<or> hd rest = CHR '','') \<and>
         field_type f = strip text"
    by (rule field_spec_shape)
qed

lemma parse_map_line:
  "parse_field_line ''    map: HashMap<String, u32>,'' =
     Inr [\<lparr>field_name = ''map'', field_type = ''HashMap<String''\<rparr>]"
  by code_simp

text \<open>
  C5, as stated, fails: \<open>[^,]+\<close> stops at the first comma wherever it stands, so a comma
  inside generic brackets cuts the type short.
\<close>

theorem nested_comma_truncates:
  "parse_field_line ''    map: HashMap<String, u32>,'' =
     Inr [\<lparr>field_name = ''map'', field_type = ''HashMap<String''\<rparr>] \<and>
   ''HashMap<String'' \<noteq> ''HashMap<String, u32>''"
  by (simp add: parse_map_line)

theorem field_line_parsed_witness:
  "\<exists>ws1 ws2 text rest.
     strip ''    map: HashMap<String, u32>,'' =
       field_name \<lparr>field_name = ''map'', field_type = ''HashMap<String''\<rparr> @
       ws1 @ '':'' @ ws2 @ text @ rest \<and>
     field_name \<lparr>field_name = ''map'', field_type = ''HashMap<String''\<rparr> \<noteq> [] \<and>
     list_all isword (field_name \<lparr>field_name = ''map'', field_type = ''HashMap<String''\<rparr>) \<and>
     list_all isspace ws1 \<and> list_all isspace ws2 \<and> CHR '','' \<notin> set text \<and>
     (rest = [] \<or> hd rest = CHR '','') \<and>
     field_type \<lparr>field_name = ''map'', field_type = ''HashMap<String''\<rparr> = strip text"
  by (rule field_line_parsed [of "''    map: HashMap<String, u32>,''", THEN conjunct2,
        rule_format, OF parse_map_line])

text \<open>
  C10: a struct body line whose field name comes after a visibility keyword yields no
  field and no error, so the field is missing from the table of fields. The keyword is a
  word that a character outside \<open>\w\<close> follows, and what comes after it and after the
  blanks is not a colon, as in \<open>pub name: Type,\<close> and \<open>pub(crate) name: Type,\<close>.
\<close>

theorem visibility_field_skipped:
  assumes "strip raw = keyword @ follow"
    and "keyword \<noteq> []" and "list_all isword keyword"
    and "follow \<noteq> []" and "\<not> isword (hd follow)"
    and "\<not> startswith (dropWhile isspace follow) '':''"
  shows "parse_field_line raw = Inr []"
proof -
  from assms(4,5) have "takeWhile isword follow = []"
    by (rule takeWhile_Nil_hd)
  with assms(3) have tw: "takeWhile isword (strip raw) = keyword"
    by (simp add: assms(1) list_all_iff)
  from assms(3) have "dropWhile isword (strip raw) = dropWhile isword follow"
    by (simp add: assms(1) list_all_iff)
  also have "\<dots> = follow"
    using assms(4,5) by (cases follow) simp_all
  finally have dw: "dropWhile isword (strip raw) = follow" .
  from assms(6) have "field_spec (strip raw) = None"
    by (simp add: field_spec_def Let_def tw dw)
  then show ?thesis by (simp add: parse_field_line_spec)
qed

theorem visibility_field_skipped_witness:
  "parse_field_line ''    pub name: Type,'' = Inr [] \<and>
   parse_field_line ''    pub(crate) name: Type,'' = Inr [] \<and>
   collect parse_field_line (split_on NL ''\<newline>    pub name: String,\<newline>    pub size: u8,\<newline>'') = Inr []"
proof -
  have 1: "strip ''    pub name: Type,'' = ''pub'' @ '' name: Type,''"
    by code_simp
  have 2: "strip ''    pub(crate) name: Type,'' = ''pub'' @ ''(crate) name: Type,''"
    by code_simp
  have w: "list_all isword ''pub''" by code_simp
  have 3: "\<not> isword (hd '' name: Type,'')" by code_simp
  have 4: "\<not> startswith (dropWhile isspace '' name: Type,'') '':''" by code_simp
  have 5: "\<not> isword (hd ''(crate) name: Type,'')" by code_simp
  have 6: "\<not> startswith (dropWhile isspace ''(crate) name: Type,'') '':''" by code_simp
  have 7: "collect parse_field_line
             (split_on NL ''\<newline>    pub name: String,\<newline>    pub size: u8,\<newline>'') = Inr []"
    by code_simp
  from visibility_field_skipped [OF 1 _ w _ 3 4] visibility_field_skipped [OF 2 _ w _ 5 6] 7
  show ?thesis by simp
qed

section \<open>The first match of a pattern and the scan of a text\<close>

lemma contains_prefix: "contains sub (sub @ ys)"
proof (cases "sub @ ys")
  case Nil
  then show ?thesis by simp
next
  case (Cons c cs)
  have "startswith (sub @ ys) sub" by (simp add: startswith_def)
  with Cons show ?thesis by simp
qed

lemma contains_append: "contains sub ys \<Longrightarrow> contains sub (xs @ ys)"
  by (induction xs) simp_all

lemma contains_infix: "contains sub (xs @ sub @ ys)"
  by (intro contains_append contains_prefix)

lemma first_matchD: "first_match r st = Some x \<Longrightarrow> \<exists>xs. matches r st = x # xs"
  by (auto simp: first_match_def split: list.splits)


lemma first_Seq:
  assumes "first_match a st = Some x" "first_match b x = Some y"
  shows "first_match (Seq a b) st = Some y"
proof -
  from first_matchD [OF assms(1)] first_matchD [OF assms(2)]
  obtain xs ys where "matches a st = x # xs" "matches b x = y # ys"
    by blast
  then show ?thesis by (simp add: first_match_def matches_Seq)
qed

lemma first_Lit: "first_match (Lit s) (s @ t, g) = Some (t, g)"
  by (simp add: first_match_def matches_Lit startswith_def)

lemma first_Star_Space: "first_match (Star Space) (t, g) = Some (dropWhile isspace t, g)"
  using star_list_head [of isspace t] by (auto simp: first_match_def matches_star_char)

lemma first_Star_NoneOf:
  "first_match (Star (NoneOf cs)) (t, g) = Some (dropWhile (\<lambda>c. c \<notin> set cs) t, g)"
  using star_list_head [of "\<lambda>c. c \<notin> set cs" t] by (auto simp: first_match_def matches_star_char)

lemma dropWhile_Cons_hd: "t \<noteq> [] \<Longrightarrow> P (hd t) \<Longrightarrow> dropWhile P t = dropWhile P (tl t)"
  by (cases t) simp_all

lemma first_Plus_Word:
  assumes "t \<noteq> []" "isword (hd t)"
  shows "first_match (Plus Word) (t, g) = Some (dropWhile isword t, g)"
proof -
  from assms obtain c cs where t: "t = c # cs" "isword c" by (cases t) auto
  with star_list_head [of isword cs] show ?thesis
    by (auto simp: first_match_def matches_plus_char)
qed



lemma first_Group:
  "first_match r st = Some x \<Longrightarrow> first_match (Group name r) st = Some (capture name st x)"
  by (auto simp: first_match_def matches.simps split: list.splits)



lemma matches_Lit_none: "\<not> startswith t s \<Longrightarrow> matches (Seq (Lit s) r) (t, g) = []"
  by (simp add: matches_Seq matches_Lit)


lemma star_iter_stop: "f st = [] \<Longrightarrow> star_iter f n st = [st]"
  by (cases n) simp_all

lemma star_iter_nonempty: "star_iter f n st \<noteq> []"
  by (cases n) simp_all

lemma star_iter_step:
  assumes "f st = x # xs" "length (fst x) < length (fst st)" "star_iter f n x = y # ys"
  shows "\<exists>zs. star_iter f (Suc n) st = y # zs"
  using assms by simp

lemma dropWhile_run:
  "\<forall>x\<in>set a. P x \<Longrightarrow> b = [] \<or> \<not> P (hd b) \<Longrightarrow> dropWhile P (a @ b) = b"
  by (cases b) (auto simp: dropWhile_append)

lemma doc_line_Seq:
  "doc_line = Seq (Lit ''///'') (Seq (Star (NoneOf [NL])) (Seq (Lit [NL]) (Star Space)))"
  by (simp add: doc_line_def)

lemma doc_line_none: "\<not> startswith t ''///'' \<Longrightarrow> matches doc_line (t, g) = []"
  by (simp add: doc_line_Seq matches_Lit_none)

lemma doc_line_first:
  assumes "NL \<notin> set t" "list_all isspace ind" "rest \<noteq> []" "\<not> isspace (hd rest)"
  shows "first_match doc_line (''///'' @ t @ NL # ind @ rest, g) = Some (rest, g)"
proof -
  have 1: "first_match (Lit ''///'') (''///'' @ t @ NL # ind @ rest, g) =
           Some (t @ NL # ind @ rest, g)"
    by (rule first_Lit)
  have "dropWhile (\<lambda>c. c \<notin> set [NL]) (t @ NL # ind @ rest) = NL # ind @ rest"
    using assms(1) by (intro dropWhile_run) auto
  then have 2: "first_match (Star (NoneOf [NL])) (t @ NL # ind @ rest, g) =
           Some (NL # ind @ rest, g)"
    by (simp add: first_Star_NoneOf)
  have 3: "first_match (Lit [NL]) (NL # ind @ rest, g) = Some (ind @ rest, g)"
    using first_Lit [of "[NL]" "ind @ rest" g] by simp
  have "dropWhile isspace (ind @ rest) = rest"
    using assms(2,4) by (intro dropWhile_run) (auto simp: list_all_iff)
  then have 4: "first_match (Star Space) (ind @ rest, g) = Some (rest, g)"
    by (simp add: first_Star_Space)
  show ?thesis
    unfolding doc_line_Seq
    by (intro first_Seq [OF 1] first_Seq [OF 2] first_Seq [OF 3] 4)
qed

lemma doc_block_Cons:
  "doc_block ((t, ind) # ls) = ''///'' @ t @ NL # ind @ doc_block ls"
  by (simp add: doc_block_def)

lemma doc_block_Nil: "doc_block [] = []"
  by (simp add: doc_block_def)

lemma doc_block_star:
  assumes "rest \<noteq> []" "\<not> isspace (hd rest)" "\<not> startswith rest ''///''"
  shows "doc_lines_ok ls \<Longrightarrow> length (doc_block ls @ rest) \<le> n \<Longrightarrow>
         \<exists>xs. star_iter (matches doc_line) n (doc_block ls @ rest, g) = (rest, g) # xs"
proof (induction ls arbitrary: n)
  case Nil
  then show ?case
    using assms(3) by (simp add: doc_block_Nil star_iter_stop doc_line_none)
next
  case (Cons l ls)
  obtain t ind where l: "l = (t, ind)" by (cases l)
  let ?nxt = "doc_block ls @ rest"
  from Cons.prems(1) l have ok: "NL \<notin> set t" "list_all isspace ind" "doc_lines_ok ls"
    by (simp_all add: doc_lines_ok_def)
  have ne: "?nxt \<noteq> []" using assms(1) by simp
  have hd: "\<not> isspace (hd ?nxt)"
  proof (cases ls)
    case Nil
    then show ?thesis using assms(2) by (simp add: doc_block_Nil)
  next
    case (Cons l' ls')
    then show ?thesis by (cases l') (simp add: doc_block_Cons isspace_def)
  qed
  from doc_line_first [OF ok(1,2) ne hd, of g] obtain xs
    where step: "matches doc_line (''///'' @ t @ NL # ind @ ?nxt, g) = (?nxt, g) # xs"
    by (auto dest: first_matchD)
  from Cons.prems(2) l obtain n' where n: "n = Suc n'" "length ?nxt \<le> n'"
    by (cases n) (simp_all add: doc_block_Cons)
  from Cons.IH [OF ok(3) n(2)] obtain ys
    where "star_iter (matches doc_line) n' (?nxt, g) = (rest, g) # ys" by blast
  with step n(1) l show ?case by (simp add: doc_block_Cons)
qed


lemma first_Plus_doc:
  assumes "doc_lines_ok ls" "ls \<noteq> []" "rest \<noteq> []" "\<not> isspace (hd rest)"
    "\<not> startswith rest ''///''"
  shows "first_match (Plus doc_line) (doc_block ls @ rest, g) = Some (rest, g)"
proof -
  from assms(2) obtain t ind ls' where ls: "ls = (t, ind) # ls'"
    by (cases ls) auto
  let ?nxt = "doc_block ls' @ rest"
  from assms(1) ls have ok: "NL \<notin> set t" "list_all isspace ind" "doc_lines_ok ls'"
    by (simp_all add: doc_lines_ok_def)
  have ne: "?nxt \<noteq> []" using assms(3) by simp
  have hd: "\<not> isspace (hd ?nxt)"
  proof (cases ls')
    case Nil
    then show ?thesis using assms(4) by (simp add: doc_block_Nil)
  next
    case (Cons l' ls'')
    then show ?thesis by (cases l') (simp add: doc_block_Cons isspace_def)
  qed
  from doc_line_first [OF ok(1,2) ne hd, of g] obtain xs
    where step: "matches doc_line (''///'' @ t @ NL # ind @ ?nxt, g) = (?nxt, g) # xs"
    by (auto dest: first_matchD)
  from doc_block_star [OF assms(3,4,5) ok(3), of "length ?nxt" g] obtain ys
    where "star_iter (matches doc_line) (length ?nxt) (?nxt, g) = (rest, g) # ys" by auto
  with step ls show ?thesis
    by (simp add: first_match_def matches.simps doc_block_Cons)
qed

lemma capture_append: "capture name (a @ b, g) (b, g') = (b, (name, a) # g')"
  by (simp add: capture_def)


lemma finditer_hit:
  assumes "first_match r (s, []) = Some (s', m)" "length s' < length s"
  shows "finditer r s = m # finditer r s'"
proof -
  from assms(2) obtain c cs where s: "s = c # cs" by (cases s) auto
  from assms(1) obtain xs where "matches r (c # cs, []) = (s', m) # xs"
    unfolding s by (auto dest: first_matchD)
  with assms(2) s show ?thesis by simp
qed

lemma finditer_skip:
  "(\<And>q p'. p = q @ p' \<Longrightarrow> p' \<noteq> [] \<Longrightarrow> matches r (p' @ s, []) = []) \<Longrightarrow>
   finditer r (p @ s) = finditer r s"
proof (induction p)
  case Nil
  then show ?case by simp
next
  case (Cons c p)
  have "matches r ((c # p) @ s, []) = []"
    using Cons.prems [of "[]" "c # p"] by simp
  then have "finditer r ((c # p) @ s) = finditer r (p @ s)" by simp
  moreover have "finditer r (p @ s) = finditer r s"
  proof (rule Cons.IH)
    fix q p' assume "p = q @ p'" "p' \<noteq> []"
    then show "matches r (p' @ s, []) = []"
      using Cons.prems [of "c # q" p'] by simp
  qed
  ultimately show ?case by simp
qed

lemma finditer_none:
  "(\<And>q t. s = q @ t \<Longrightarrow> matches r (t, []) = []) \<Longrightarrow> finditer r s = []"
proof (induction s)
  case Nil
  then show ?case by simp
next
  case (Cons c s)
  have "matches r (c # s, []) = []" using Cons.prems [of "[]" "c # s"] by simp
  moreover have "finditer r s = []"
  proof (rule Cons.IH)
    fix q t assume "s = q @ t"
    then show "matches r (t, []) = []" using Cons.prems [of "c # q" t] by simp
  qed
  ultimately show ?case by simp
qed


lemma startswith_split: "startswith t s \<Longrightarrow> t = s @ drop (length s) t"
  by (metis append_take_drop_id startswith_def)

lemma startswith_contains: "startswith t pat \<Longrightarrow> contains pat t"
  using contains_prefix [of pat "drop (length pat) t"] startswith_split [of t pat] by simp

lemma no_straddle:
  assumes "p \<noteq> []" "last p = NL" "NL \<notin> set pat" "startswith (p @ s) pat"
  shows "startswith p pat"
proof (cases "length pat \<le> length p")
  case True
  with assms(4) show ?thesis by (simp add: startswith_def)
next
  case False
  with assms(4) have "pat = p @ take (length pat - length p) s"
    by (simp add: startswith_def)
  then have "set p \<subseteq> set pat" by (metis set_append Un_upper1)
  moreover from assms(1) have "last p \<in> set p" by simp
  ultimately have "NL \<in> set pat" using assms(2) by auto
  with assms(3) show ?thesis by simp
qed

lemma prefix_clear:
  assumes "before = [] \<or> last before = NL" "\<not> contains pat before" "NL \<notin> set pat"
    "before = q @ p" "p \<noteq> []"
  shows "\<not> startswith (p @ s) pat"
proof
  assume sw: "startswith (p @ s) pat"
  from assms(1,4,5) have "last p = NL" by auto
  from no_straddle [OF assms(5) this assms(3) sw] have "contains pat p"
    by (rule startswith_contains)
  then have "contains pat before" unfolding assms(4) by (rule contains_append)
  with assms(2) show False by simp
qed

lemma match_char_suffix: "st' \<in> set (match_char P st) \<Longrightarrow> \<exists>u. fst st = u @ fst st'"
  by (cases "(P, st)" rule: match_char.cases) (auto split: if_splits)

lemma star_iter_suffix:
  assumes "\<And>x y. y \<in> set (f x) \<Longrightarrow> \<exists>u. fst x = u @ fst y"
  shows "st' \<in> set (star_iter f n st) \<Longrightarrow> \<exists>u. fst st = u @ fst st'"
proof (induction n arbitrary: st)
  case 0
  then show ?case by simp
next
  case (Suc n)
  from Suc.prems consider "st' = st"
    | mid where "mid \<in> set (f st)" "st' \<in> set (star_iter f n mid)"
    by auto
  then show ?case
  proof cases
    case 1
    then show ?thesis by simp
  next
    case 2
    from assms [OF 2(1)] Suc.IH [OF 2(2)] show ?thesis by (metis append.assoc)
  qed
qed

lemma matches_suffix:
  "st' \<in> set (matches r st) \<Longrightarrow> \<exists>u. fst st = u @ fst st'"
proof (induction r arbitrary: st st')
  case (Lit s)
  then show ?case
    by (auto simp: matches.simps dest: startswith_split split: if_splits)
next
  case Dot
  then show ?case by (simp add: matches.simps match_char_suffix)
next
  case Space
  then show ?case by (simp add: matches.simps match_char_suffix)
next
  case Word
  then show ?case by (simp add: matches.simps match_char_suffix)
next
  case (NoneOf cs)
  then show ?case by (simp add: matches.simps match_char_suffix)
next
  case (Seq r1 r2)
  from Seq.prems obtain mid where m: "mid \<in> set (matches r1 st)" "st' \<in> set (matches r2 mid)"
    by (auto simp: matches.simps)
  from Seq.IH(1) [OF m(1)] Seq.IH(2) [OF m(2)] show ?case by (metis append.assoc)
next
  case (Star r)
  show ?case
  proof (rule star_iter_suffix [of "matches r"])
    show "\<exists>u. fst x = u @ fst y" if "y \<in> set (matches r x)" for x y
      using Star.IH [OF that] .
    show "st' \<in> set (star_iter (matches r) (length (fst st)) st)"
      using Star.prems by (simp add: matches.simps)
  qed
next
  case (Plus r)
  from Plus.prems obtain mid where m: "mid \<in> set (matches r st)"
    "st' \<in> set (star_iter (matches r) (length (fst mid)) mid)"
    by (auto simp: matches.simps)
  have "\<exists>u. fst mid = u @ fst st'"
  proof (rule star_iter_suffix [of "matches r"])
    show "\<exists>u. fst x = u @ fst y" if "y \<in> set (matches r x)" for x y
      using Plus.IH [OF that] .
    show "st' \<in> set (star_iter (matches r) (length (fst mid)) mid)"
      by (rule m(2))
  qed
  with Plus.IH [OF m(1)] show ?case by (metis append.assoc)
next
  case (Opt r)
  from Opt.prems have "st' \<in> set (matches r st) \<or> st' = st" by (auto simp: matches.simps)
  then show ?case
  proof
    assume "st' \<in> set (matches r st)"
    from Opt.IH [OF this] show ?thesis .
  next
    assume "st' = st"
    then show ?thesis by simp
  qed
next
  case (Group name r)
  from Group.prems obtain mid where m: "mid \<in> set (matches r st)" "st' = capture name st mid"
    by (auto simp: matches.simps)
  from Group.IH [OF m(1)] m(2) show ?case by (simp add: capture_def)
qed

subsection \<open>The struct scan of a file with one documented struct\<close>

text \<open>
  The struct pattern needs a documentation line where it starts, so the scan passes over
  any text that holds no \<open>///\<close>; at the documentation block of the struct it matches up
  to the first closing brace, and what follows holds no further match when it holds no
  \<open>pub struct\<close>.
\<close>

lemma struct_pattern_Seq:
  "struct_pattern =
     Seq (Group ''docs'' (Plus doc_line))
       (Seq (Star Space)
         (Seq (Lit ''pub struct '')
           (Seq (Group ''name'' (Plus Word))
             (Seq (Star Space)
               (Seq (Lit ''{'') (Seq (Group ''body'' (Star (NoneOf ''}''))) (Lit ''}'')))))))"
  by (simp add: struct_pattern_def)

lemma struct_needs_marker:
  "\<not> startswith t ''///'' \<Longrightarrow> matches struct_pattern (t, g) = []"
  by (simp add: struct_pattern_Seq matches_Seq [of "Group ''docs'' (Plus doc_line)"]
      matches.simps(8,10) doc_line_none)

lemma struct_needs_literal:
  assumes "st' \<in> set (matches struct_pattern (t, g))"
  shows "contains ''pub struct '' t"
proof -
  let ?X = "Seq (Group ''name'' (Plus Word))
             (Seq (Star Space)
               (Seq (Lit ''{'') (Seq (Group ''body'' (Star (NoneOf ''}''))) (Lit ''}''))))"
  from assms obtain m1 m2 m3
    where m: "m1 \<in> set (matches (Group ''docs'' (Plus doc_line)) (t, g))"
      "m2 \<in> set (matches (Star Space) m1)"
      "m3 \<in> set (matches (Lit ''pub struct '') m2)"
    by (auto simp: struct_pattern_Seq matches_Seq)
  from m(3) have "startswith (fst m2) ''pub struct ''"
    by (cases m2) (auto simp: matches_Lit split: if_splits)
  then obtain w where w: "fst m2 = ''pub struct '' @ w"
    using startswith_split by blast
  from matches_suffix [OF m(1)] matches_suffix [OF m(2)] obtain u1 u2
    where "t = u1 @ fst m1" "fst m1 = u2 @ fst m2" by auto
  with w have "t = (u1 @ u2) @ ''pub struct '' @ w" by simp
  then show ?thesis by (simp only: contains_infix)
qed

lemma struct_first:
  assumes "doc_lines_ok ls" "ls \<noteq> []" "name \<noteq> []" "list_all isword name"
    "CHR ''}'' \<notin> set body"
  shows "first_match struct_pattern
           (doc_block ls @ ''pub struct '' @ name @ '' {'' @ body @ ''}'' @ rest, []) =
         Some (rest, [(''body'', body), (''name'', name), (''docs'', doc_block ls)])"
proof -
  let ?T6 = "''}'' @ rest"
  let ?T5 = "body @ ?T6"
  let ?T4 = "''{'' @ ?T5"
  let ?T3 = "'' {'' @ ?T5"
  let ?T2 = "name @ ?T3"
  let ?T1 = "''pub struct '' @ ?T2"
  let ?g1 = "[(''docs'', doc_block ls)]"
  let ?g2 = "(''name'', name) # ?g1"
  let ?g3 = "(''body'', body) # ?g2"
  have "first_match (Plus doc_line) (doc_block ls @ ?T1, []) = Some (?T1, [])"
    using assms(1,2) by (intro first_Plus_doc) (simp_all add: isspace_def startswith_def)
  from first_Group [OF this, of "''docs''"]
  have 1: "first_match (Group ''docs'' (Plus doc_line)) (doc_block ls @ ?T1, []) = Some (?T1, ?g1)"
    by (simp add: capture_append)
  have 2: "first_match (Star Space) (?T1, ?g1) = Some (?T1, ?g1)"
    by (simp add: first_Star_Space isspace_def)
  have 3: "first_match (Lit ''pub struct '') (?T1, ?g1) = Some (?T2, ?g1)"
    by (rule first_Lit)
  have "dropWhile isword ?T2 = ?T3"
    using assms(4) by (intro dropWhile_run) (simp_all add: list_all_iff isword_def)
  moreover have "first_match (Plus Word) (?T2, ?g1) = Some (dropWhile isword ?T2, ?g1)"
    using assms(3,4) by (intro first_Plus_Word) (cases name; simp)+
  ultimately have "first_match (Plus Word) (?T2, ?g1) = Some (?T3, ?g1)" by simp
  from first_Group [OF this, of "''name''"]
  have 4: "first_match (Group ''name'' (Plus Word)) (?T2, ?g1) = Some (?T3, ?g2)"
    by (simp add: capture_append)
  have 5: "first_match (Star Space) (?T3, ?g2) = Some (?T4, ?g2)"
    by (simp add: first_Star_Space isspace_def)
  have 6: "first_match (Lit ''{'') (?T4, ?g2) = Some (?T5, ?g2)"
    by (rule first_Lit)
  have "dropWhile (\<lambda>c. c \<notin> set ''}'') ?T5 = ?T6"
    using assms(5) by (intro dropWhile_run) auto
  then have "first_match (Star (NoneOf ''}'')) (?T5, ?g2) = Some (?T6, ?g2)"
    by (simp add: first_Star_NoneOf)
  from first_Group [OF this, of "''body''"]
  have 7: "first_match (Group ''body'' (Star (NoneOf ''}''))) (?T5, ?g2) = Some (?T6, ?g3)"
    by (simp add: capture_append)
  have 8: "first_match (Lit ''}'') (?T6, ?g3) = Some (rest, ?g3)"
    by (rule first_Lit)
  show ?thesis
    unfolding struct_pattern_Seq
    by (intro first_Seq [OF 1] first_Seq [OF 2] first_Seq [OF 3] first_Seq [OF 4]
        first_Seq [OF 5] first_Seq [OF 6] first_Seq [OF 7] 8)
qed

lemma finditer_struct:
  assumes "before = [] \<or> last before = NL" "\<not> contains ''///'' before"
    "doc_lines_ok ls" "ls \<noteq> []" "name \<noteq> []" "list_all isword name"
    "CHR ''}'' \<notin> set body" "\<not> contains ''pub struct '' rest"
  shows "finditer struct_pattern
           (before @ doc_block ls @ ''pub struct '' @ name @ '' {'' @ body @ ''}'' @ rest) =
         [[(''body'', body), (''name'', name), (''docs'', doc_block ls)]]"
proof -
  let ?decl = "doc_block ls @ ''pub struct '' @ name @ '' {'' @ body @ ''}'' @ rest"
  have "finditer struct_pattern (before @ ?decl) = finditer struct_pattern ?decl"
  proof (rule finditer_skip)
    fix q p assume "before = q @ p" "p \<noteq> []"
    from prefix_clear [OF assms(1,2) _ this] have "\<not> startswith (p @ ?decl) ''///''" by simp
    then show "matches struct_pattern (p @ ?decl, []) = []" by (rule struct_needs_marker)
  qed
  also have "\<dots> = [(''body'', body), (''name'', name), (''docs'', doc_block ls)] #
                  finditer struct_pattern rest"
    using struct_first [OF assms(3-7)] by (rule finditer_hit) simp
  also have "finditer struct_pattern rest = []"
  proof (rule finditer_none)
    fix q t assume r: "rest = q @ t"
    show "matches struct_pattern (t, []) = []"
    proof (rule ccontr)
      assume "matches struct_pattern (t, []) \<noteq> []"
      then obtain st' where "st' \<in> set (matches struct_pattern (t, []))"
        by (cases "matches struct_pattern (t, [])") auto
      then have "contains ''pub struct '' t" by (rule struct_needs_literal)
      then have "contains ''pub struct '' rest" unfolding r by (rule contains_append)
      with assms(8) show False by simp
    qed
  qed
  finally show ?thesis .
qed


subsection \<open>The callable scan: where the pattern cannot match\<close>
















subsection \<open>The callable pattern at a documented public function\<close>







subsection \<open>The impl scan, and the first method of a block\<close>






lemma extract_parts:
  assumes "extract_from_file content = Inr data"
  shows "collect struct_of_match (finditer struct_pattern content) = Inr (structs data)"
    and "collect methods_of_impl (finditer impl_pattern content) = Inr (impls data)"
    and "collect callable_of_match (finditer func_pattern content) = Inr (functions data)"
  using assms by (auto simp: extract_from_file_def Let_def split: sum.splits)

lemma extract_from_file_Inr: "\<exists>data. extract_from_file content = Inr data"
proof -
  obtain ss where "collect struct_of_match (finditer struct_pattern content) = Inr ss"
    using collect_total [of "finditer struct_pattern content" struct_of_match]
      struct_of_match_total by blast
  moreover obtain ms where "collect methods_of_impl (finditer impl_pattern content) = Inr ms"
    using collect_total [of "finditer impl_pattern content" methods_of_impl]
      methods_of_impl_total by blast
  moreover obtain fs where "collect callable_of_match (finditer func_pattern content) = Inr fs"
    using collect_total [of "finditer func_pattern content" callable_of_match]
      callable_of_match_total by blast
  ultimately show ?thesis by (simp add: extract_from_file_def Let_def)
qed








subsection \<open>Occurrences of a text, and what the scan of a directory gathers\<close>









lemma scan_index_only:
  assumes "extract_from_file content = Inr data"
  shows "scan_component [(([], ''mod.rs''), content)] =
           Inr \<lparr>module_doc = module_doc data, structs = structs data, impls = [],
                functions = []\<rparr>"
proof -
  have "endswith ''mod.rs'' ''.rs''" by (simp add: endswith_def startswith_def)
  with assms show ?thesis by (simp add: scan_component_def Let_def)
qed




section \<open>Scanning and rendering a component\<close>

lemma struct_of_declared:
  assumes "collect parse_field_line (split_on NL body) = Inr field_list"
  shows "struct_of_match [(''body'', body), (''name'', name), (''docs'', d)] =
           Inr [\<lparr>struct_name = name, struct_docs = clean_rustdoc d,
                 struct_fields = field_list\<rparr>]"
  using assms by (simp add: struct_of_match_def group_def clean_rustdoc_group_def)

lemma collect_single: "f x = Inr ys \<Longrightarrow> collect f [x] = Inr ys"
  by simp


lemma widget_mod_extract:
  "extract_from_file widget_mod_rs =
     Inr \<lparr>module_doc = ''Widgets.'', structs = [widget_struct], impls = [],
          functions = [new_widget]\<rparr>"
  by code_simp

text \<open>
  C1, amended: for a component directory whose only fragment is \<open>mod.rs\<close>, holding one
  documented public struct and any text after it, such as a documented public function
  \<open>new_widget\<close>, the page is the header followed by exactly one "Struct:" subsection, for
  that struct and the fields parsed from its body; it has no "Constructors", "Functions"
  or "Methods" subsection, because callables are collected from the other fragments
  only. The struct stands in the file as one or more \<open>///\<close> lines directly followed by
  \<open>pub struct Name {\<close>, a body without \<open>}\<close> and the closing brace; the text before it ends
  a line and holds no \<open>///\<close>, and the text after it holds no further \<open>pub struct\<close>.
\<close>

theorem index_struct_page:
  assumes "content = before @ doc_block docs @ ''pub struct '' @ name @ '' {'' @ body @
             ''}'' @ rest"
    and "before = [] \<or> last before = NL" and "\<not> contains ''///'' before"
    and "doc_lines_ok docs" and "docs \<noteq> []" and "name \<noteq> []" and "list_all isword name"
    and "CHR ''}'' \<notin> set body" and "\<not> contains ''pub struct '' rest"
  shows "\<exists>unit s. scan_component [(([], ''mod.rs''), content)] = Inr unit \<and>
           structs unit = [s] \<and> struct_name s = name \<and>
           struct_docs s = clean_rustdoc (doc_block docs) \<and>
           collect parse_field_line (split_on NL body) = Inr (struct_fields s) \<and>
           impls unit = [] \<and> functions unit = [] \<and>
           constructors_section unit = [] \<and> functions_section unit = [] \<and>
           methods_section unit = [] \<and>
           generate_mdx_from_rustdata title unit category =
             render_header title (format_rustdoc_to_markdown (module_doc unit)) @
             render_struct s"
proof -
  obtain data where data: "extract_from_file content = Inr data"
    using extract_from_file_Inr by blast
  obtain field_list where fl: "collect parse_field_line (split_on NL body) = Inr field_list"
    using collect_total [of "split_on NL body" parse_field_line] parse_field_line_total
    by blast
  define s where "s = \<lparr>struct_name = name, struct_docs = clean_rustdoc (doc_block docs),
                       struct_fields = field_list\<rparr>"
  define unit where "unit = \<lparr>module_doc = module_doc data, structs = structs data,
                             impls = [], functions = []\<rparr>"
  have "finditer struct_pattern content =
          [[(''body'', body), (''name'', name), (''docs'', doc_block docs)]]"
    unfolding assms(1) using assms(2-9) by (rule finditer_struct)
  with extract_parts(1) [OF data]
  have "collect struct_of_match [[(''body'', body), (''name'', name), (''docs'', doc_block docs)]] =
          Inr (structs data)" by simp
  moreover have "collect struct_of_match
          [[(''body'', body), (''name'', name), (''docs'', doc_block docs)]] = Inr [s]"
    unfolding s_def using fl by (intro collect_single struct_of_declared)
  ultimately have ss: "structs data = [s]" by simp
  have 1: "scan_component [(([], ''mod.rs''), content)] = Inr unit"
    unfolding unit_def using data by (rule scan_index_only)
  have 2: "structs unit = [s]" "impls unit = []" "functions unit = []"
    by (simp_all add: unit_def ss)
  have 3: "struct_name s = name" "struct_docs s = clean_rustdoc (doc_block docs)"
    "collect parse_field_line (split_on NL body) = Inr (struct_fields s)"
    by (simp_all add: s_def fl)
  have 4: "constructors_section unit = []" "functions_section unit = []"
    "methods_section unit = []"
    by (simp_all add: unit_def constructors_section_def functions_section_def
        methods_section_def constructors_def other_funcs_def)
  have 5: "generate_mdx_from_rustdata title unit category =
             render_header title (format_rustdoc_to_markdown (module_doc unit)) @
             render_struct s"
    by (simp add: generate_mdx_from_rustdata_def 2 4)
  from 1 2 3 4 5 show ?thesis by blast
qed

lemma widget_scan: "scan_component [(([], ''mod.rs''), widget_mod_rs)] = Inr widget_unit"
  using scan_index_only [OF widget_mod_extract] by (simp add: widget_unit_def)

lemma widget_page:
  "generate_mdx_from_rustdata ''Widget'' widget_unit ''widgets'' =
     ''---\<newline>title: Widget\<newline>description: Auto-generated documentation from rustdoc\<newline>---\<newline>\<newline># Widget\<newline>\<newline>Widgets.\<newline>\<newline>## Struct: Widget\<newline>\<newline>A widget.\<newline>\<newline>### Fields\<newline>\<newline>| Field | Type | Description |\<newline>|-------|------|-------------|\<newline>| `width` | `u16` | |\<newline>| `height` | `u16` | |\<newline>\<newline>''"
  by code_simp

lemma widget_page_one_struct:
  "count_sub ''## Struct: '' (generate_mdx_from_rustdata ''Widget'' widget_unit ''widgets'') = 1"
  unfolding widget_page by code_simp

text \<open>
  C1, as stated, fails: \<open>scan_component\<close> takes only the module documentation and the
  structs from \<open>mod.rs\<close> and skips that file in the loop that collects callables. The
  file \<open>widget_mod_rs\<close> holds a documented struct with two fields and the documented
  function \<open>new_widget\<close>; the page has its one "Struct:" subsection, but no
  "Constructors" subsection and no mention of \<open>new_widget\<close>.
\<close>

theorem index_function_not_rendered:
  "extract_from_file widget_mod_rs =
     Inr \<lparr>module_doc = ''Widgets.'', structs = [widget_struct], impls = [],
          functions = [new_widget]\<rparr> \<and>
   is_constructor new_widget \<and> fn_docs new_widget = ''Makes a widget.'' \<and>
   scan_component [(([], ''mod.rs''), widget_mod_rs)] = Inr widget_unit \<and>
   constructors_section widget_unit = [] \<and>
   \<not> contains ''## Constructors'' (generate_mdx_from_rustdata ''Widget'' widget_unit ''widgets'') \<and>
   \<not> contains ''new_widget'' (generate_mdx_from_rustdata ''Widget'' widget_unit ''widgets'') \<and>
   count_sub ''## Struct: '' (generate_mdx_from_rustdata ''Widget'' widget_unit ''widgets'') = 1"
proof -
  have "is_constructor new_widget" by code_simp
  moreover have "fn_docs new_widget = ''Makes a widget.''" by (simp add: new_widget_def)
  moreover have "constructors_section widget_unit = []" by code_simp
  moreover have "\<not> contains ''## Constructors''
      (generate_mdx_from_rustdata ''Widget'' widget_unit ''widgets'')"
    unfolding widget_page by code_simp
  moreover have "\<not> contains ''new_widget''
      (generate_mdx_from_rustdata ''Widget'' widget_unit ''widgets'')"
    unfolding widget_page by code_simp
  ultimately show ?thesis
    using widget_mod_extract widget_scan widget_page_one_struct by simp
qed

theorem index_struct_page_witness:
  "\<exists>unit. scan_component [(([], ''mod.rs''), widget_mod_rs)] = Inr unit \<and>
     structs unit = [widget_struct] \<and> impls unit = [] \<and> functions unit = [] \<and>
     constructors_section unit = [] \<and> functions_section unit = [] \<and>
     methods_section unit = [] \<and>
     generate_mdx_from_rustdata ''Widget'' unit ''widgets'' =
       render_header ''Widget'' (format_rustdoc_to_markdown (module_doc unit)) @
       render_struct widget_struct"
proof -
  let ?before = "''//! Widgets.\<newline>''"
  let ?docs = "[('' A widget.'', [])]"
  let ?body = "''\<newline>    width: u16,\<newline>    height: u16,\<newline>''"
  let ?rest = "''\<newline>\<newline>/// Makes a widget.\<newline>pub fn new_widget(w: u16) -> Widget {\<newline>    todo!()\<newline>}\<newline>''"
  have 1: "widget_mod_rs = ?before @ doc_block ?docs @ ''pub struct '' @ ''Widget'' @ '' {'' @
             ?body @ ''}'' @ ?rest"
    by (simp add: widget_mod_rs_def doc_block_def)
  have 2: "?before = [] \<or> last ?before = NL" by simp
  have 3: "\<not> contains ''///'' ?before" by code_simp
  have 4: "doc_lines_ok ?docs" by (simp add: doc_lines_ok_def)
  have 5: "?docs \<noteq> []" by simp
  have 6: "''Widget'' \<noteq> []" by simp
  have 7: "list_all isword ''Widget''" by code_simp
  have 8: "CHR ''}'' \<notin> set ?body" by simp
  have 9: "\<not> contains ''pub struct '' ?rest" by code_simp
  have a: "clean_rustdoc (doc_block ?docs) = ''A widget.''" by code_simp
  have b: "collect parse_field_line (split_on NL ?body) =
             Inr [\<lparr>field_name = ''width'', field_type = ''u16''\<rparr>,
                  \<lparr>field_name = ''height'', field_type = ''u16''\<rparr>]" by code_simp
  from index_struct_page [OF 1 2 3 4 5 6 7 8 9, of "''Widget''" "''widgets''"]
  obtain unit s where u: "scan_component [(([], ''mod.rs''), widget_mod_rs)] = Inr unit"
    "structs unit = [s]" "struct_name s = ''Widget''"
    "struct_docs s = clean_rustdoc (doc_block ?docs)"
    "collect parse_field_line (split_on NL ?body) = Inr (struct_fields s)"
    "impls unit = []" "functions unit = []" "constructors_section unit = []"
    "functions_section unit = []" "methods_section unit = []"
    "generate_mdx_from_rustdata ''Widget'' unit ''widgets'' =
       render_header ''Widget'' (format_rustdoc_to_markdown (module_doc unit)) @
       render_struct s"
    by blast
  from u(5) b have "struct_fields s = [\<lparr>field_name = ''width'', field_type = ''u16''\<rparr>,
                  \<lparr>field_name = ''height'', field_type = ''u16''\<rparr>]" by simp
  with u(3,4) a have "s = widget_struct" by (cases s) (simp add: widget_struct_def)
  with u show ?thesis by blast
qed








end
